theory Spec2Isabelle
  imports Main
begin

section \<open>Core engine: sessions, rollback, the execution loop (ganesha/core/engine.py)\<close>

datatype task_state =
  PENDING | PLANNING | AWAITING_CONSENT | EXECUTING | ITERATING | COMPLETED | FAILED | CANCELLED

datatype action_type =
  SHELL_COMMAND | FILE_READ | FILE_WRITE | FILE_DELETE | CODE_GENERATE | CODE_EXECUTE
  | API_CALL | SYSTEM_INFO

text \<open>
  The dataclass \<open>Action\<close>. The field \<open>rollback_command\<close> is \<open>Optional[str]\<close>; the
  fields \<open>id\<close>, \<open>type\<close>, \<open>command\<close> and \<open>risk_level\<close> carry the prefix \<open>act_\<close>
  because other records of this development have fields of the same name.
\<close>

record action =
  act_id :: string
  act_type :: action_type
  act_command :: string
  explanation :: string
  reversible :: bool
  rollback_command :: "string option"
  act_risk_level :: string
  requires_consent :: bool

record execution_plan =
  plan_id :: string
  plan_task :: string
  actions :: "action list"

record execution_result =
  res_success :: bool
  res_output :: string
  res_error :: string
  duration_ms :: int
  action_id :: "string option"

text \<open>
  The dataclass \<open>Session\<close>. Of the two time stamps only whether \<open>completed_at\<close>
  has been set is kept (\<open>completed\<close>).
\<close>

record session =
  sess_id :: string
  sess_task :: string
  state :: task_state
  plan :: "execution_plan option"
  executed_actions :: "action list"
  results :: "execution_result list"
  completed :: bool

text \<open>\<open>Session.add_result\<close>: both lists grow at the end.\<close>

definition add_result :: "session \<Rightarrow> action \<Rightarrow> execution_result \<Rightarrow> session" where
  "add_result s a r =
     s\<lparr>executed_actions := executed_actions s @ [a], results := results s @ [r]\<rparr>"

text \<open>
  Python truthiness of an \<open>Optional[str]\<close>: \<open>None\<close> and the empty string are false.
\<close>

fun truthy :: "string option \<Rightarrow> bool" where
  "truthy None = False"
| "truthy (Some s) = (s \<noteq> [])"

text \<open>
  The \<open>Action(...)\<close> built in \<open>Session.get_rollback_actions\<close>: type, command,
  explanation and \<open>requires_consent\<close> are given, the other fields take the dataclass
  defaults. The default \<open>id\<close> is the first eight characters of a fresh UUID; it is the
  argument \<open>i\<close> here.
\<close>

definition rollback_action :: "string \<Rightarrow> action \<Rightarrow> action" where
  "rollback_action i a =
     \<lparr> act_id = i,
       act_type = act_type a,
       act_command = (case rollback_command a of Some c \<Rightarrow> c | None \<Rightarrow> []),
       explanation = ''Rollback: '' @ explanation a,
       reversible = True,
       rollback_command = None,
       act_risk_level = ''low'',
       requires_consent = True \<rparr>"

text \<open>
  The loop of \<open>get_rollback_actions\<close> over \<open>reversed(self.executed_actions)\<close>, with the
  accumulator \<open>rollbacks\<close>. \<open>uuid\<close> is the source of identifiers: the \<open>k\<close>-th action
  created gets \<open>uuid k\<close>.
\<close>

fun rollback_loop :: "(nat \<Rightarrow> string) \<Rightarrow> action list \<Rightarrow> action list \<Rightarrow> action list" where
  "rollback_loop uuid [] rollbacks = rollbacks"
| "rollback_loop uuid (a # as) rollbacks =
     (if reversible a \<and> truthy (rollback_command a)
      then rollback_loop uuid as (rollbacks @ [rollback_action (uuid (length rollbacks)) a])
      else rollback_loop uuid as rollbacks)"

definition get_rollback_actions :: "(nat \<Rightarrow> string) \<Rightarrow> session \<Rightarrow> action list" where
  "get_rollback_actions uuid s = rollback_loop uuid (rev (executed_actions s)) []"

subsection \<open>The execution loop\<close>

text \<open>
  What \<open>GaneshaEngine.execute\<close> calls and cannot be computed from its arguments is a
  field of the environment: the planner (\<open>self.plan\<close>, which may raise), the consent
  handler (absent, or a function that may raise), the effect of running one action
  (\<open>_execute_action\<close> catches every exception and always returns a result) and the
  recovery planner (\<open>_plan_recovery\<close> returns \<open>None\<close> on any exception). An exception is
  \<open>Inl\<close> of its message. The number passed to \<open>run_action\<close> and \<open>recovery\<close> is the
  number of results recorded so far, so that the same action may succeed on a retry.
\<close>

record engine_env =
  planner :: "string \<Rightarrow> string + execution_plan"
  auto_approve :: bool
  consent :: "(execution_plan \<Rightarrow> string + bool \<times> string list) option"
  run_action :: "nat \<Rightarrow> action \<Rightarrow> execution_result"
  recovery :: "nat \<Rightarrow> action \<Rightarrow> execution_result \<Rightarrow> execution_plan option"

text \<open>\<open>GaneshaEngine._get_consent\<close>.\<close>

definition get_consent :: "engine_env \<Rightarrow> execution_plan \<Rightarrow> string + bool \<times> string list" where
  "get_consent env p =
     (if auto_approve env then Inr (True, map act_id (actions p))
      else case consent env of
             Some handler \<Rightarrow> handler p
           | None \<Rightarrow> Inr (True, map act_id (actions p)))"

text \<open>
  The \<open>for action in plan.actions\<close> loop of one iteration. The state is the session, the
  results yielded so far and \<open>all_success\<close>; the last component of the result is the
  recovery plan when the loop was left by \<open>break\<close>. \<open>can_recover\<close> is the test
  \<open>iteration < max_iterations\<close>, which does not change during the loop.
\<close>

fun run_plan ::
  "engine_env \<Rightarrow> bool \<Rightarrow> string list \<Rightarrow> action list
     \<Rightarrow> session \<times> execution_result list \<times> bool
     \<Rightarrow> session \<times> execution_result list \<times> bool \<times> execution_plan option" where
  "run_plan env can_recover approved_ids [] (s, ys, all_success) = (s, ys, all_success, None)"
| "run_plan env can_recover approved_ids (a # as) (s, ys, all_success) =
     (if act_id a \<notin> set approved_ids
      then run_plan env can_recover approved_ids as (s, ys, all_success)
      else
        let r = run_action env (length (results s)) a;
            s' = add_result s a r;
            ys' = ys @ [r]
        in if \<not> res_success r
           then (if can_recover
                 then (case recovery env (length (results s')) a r of
                         Some p \<Rightarrow> (s', ys', False, Some p)
                       | None \<Rightarrow> run_plan env can_recover approved_ids as (s', ys', False))
                 else run_plan env can_recover approved_ids as (s', ys', False))
           else run_plan env can_recover approved_ids as (s', ys', all_success))"

text \<open>The \<open>while iteration < max_iterations\<close> loop.\<close>

function while_iterations ::
  "engine_env \<Rightarrow> int \<Rightarrow> string list \<Rightarrow> int \<Rightarrow> execution_plan
     \<Rightarrow> session \<times> execution_result list \<Rightarrow> session \<times> execution_result list" where
  "while_iterations env max_iterations approved_ids iteration p (s, ys) =
     (if iteration < max_iterations
      then
        (case run_plan env (iteration + 1 < max_iterations) approved_ids (actions p)
                (s, ys, True) of
           (s', ys', all_success, new_plan) \<Rightarrow>
             if all_success then (s', ys')
             else while_iterations env max_iterations approved_ids (iteration + 1)
                    (case new_plan of Some q \<Rightarrow> q | None \<Rightarrow> p) (s', ys'))
      else (s, ys))"
  by pat_completeness auto
termination
  by (relation "measure (\<lambda>(env, mx, ids, it, p, sy). nat (mx - it))") auto

text \<open>
  \<open>GaneshaEngine.execute\<close>, for a consumer that reads the generator to its end. The
  result is the session as it is when \<open>_save_session\<close> writes it, and the list of the
  results yielded. \<open>sid\<close> is the session identifier (taken from the clock in the source).
\<close>

definition new_session :: "string \<Rightarrow> string \<Rightarrow> session" where
  "new_session sid task =
     \<lparr> sess_id = sid, sess_task = task, state = PENDING, plan = None,
       executed_actions = [], results = [], completed = False \<rparr>"

definition failure :: "string \<Rightarrow> execution_result" where
  "failure e =
     \<lparr> res_success = False, res_output = [], res_error = e, duration_ms = 0,
       action_id = None \<rparr>"

definition execute ::
  "engine_env \<Rightarrow> string \<Rightarrow> string \<Rightarrow> int \<Rightarrow> session \<times> execution_result list" where
  "execute env sid task max_iterations =
     (let s0 = (new_session sid task)\<lparr>state := PLANNING\<rparr> in
      case planner env task of
        Inl e \<Rightarrow> (s0\<lparr>state := FAILED\<rparr>, [failure e])
      | Inr p \<Rightarrow>
          let s1 = s0\<lparr>plan := Some p, state := AWAITING_CONSENT\<rparr> in
          (case get_consent env p of
             Inl e \<Rightarrow> (s1\<lparr>state := FAILED\<rparr>, [failure e])
           | Inr (approved, approved_ids) \<Rightarrow>
               if \<not> approved
               then (s1\<lparr>state := CANCELLED\<rparr>, [failure ''User cancelled''])
               else
                 (case while_iterations env max_iterations approved_ids 0 p
                         (s1\<lparr>state := EXECUTING\<rparr>, []) of
                    (s2, ys) \<Rightarrow> (s2\<lparr>state := COMPLETED, completed := True\<rparr>, ys))))"

section \<open>Strings and regular expressions (the part of Python's \<open>re\<close> the patterns use)\<close>

text \<open>
  A Python \<open>str\<close> is a list of code points. Commands and the subjects of matching are
  of this type; \<open>ords\<close> turns a string literal of the source into it.
\<close>

type_synonym ustring = "nat list"

definition ords :: "string \<Rightarrow> ustring" where
  "ords s = map of_char s"

text \<open>
  How characters are classified is decided by the Unicode tables of the Python
  interpreter, which are no part of the repository. They are a parameter of the model:
  \<^item> \<open>u_space\<close>: \<open>str.isspace\<close>, which is also \<open>\\s\<close> and what \<open>str.strip()\<close> removes;
  \<^item> \<open>u_word\<close>: \<open>\\w\<close>, which decides \<open>\\b\<close>;
  \<^item> \<open>u_digit\<close>: \<open>\\d\<close>;
  \<^item> \<open>u_ieq x c\<close>: under \<open>re.IGNORECASE\<close> the pattern character \<open>x\<close> matches the
    subject character \<open>c\<close>;
  \<^item> \<open>u_lower\<close>: \<open>str.lower()\<close>;
  \<^item> \<open>u_cases c\<close>: for a letter \<open>c\<close>, those of \<open>c.lower()\<close> and \<open>c.upper()\<close> that are
    one character; empty for a character that is no letter (such as the combining mark
    \<open>U+0345\<close>, whose upper-case form is the letter \<open>U+0399\<close>).
\<close>

record ucd =
  u_space :: "nat \<Rightarrow> bool"
  u_word :: "nat \<Rightarrow> bool"
  u_digit :: "nat \<Rightarrow> bool"
  u_ieq :: "nat \<Rightarrow> nat \<Rightarrow> bool"
  u_lower :: "ustring \<Rightarrow> ustring"
  u_cases :: "nat \<Rightarrow> nat list"

text \<open>White space and letters among the ASCII code points.\<close>

definition ascii_space :: "nat \<Rightarrow> bool" where
  "ascii_space c = (c \<in> set [9, 10, 11, 12, 13, 28, 29, 30, 31, 32])"

definition ascii_letter :: "nat \<Rightarrow> bool" where
  "ascii_letter c = ((65 \<le> c \<and> c \<le> 90) \<or> (97 \<le> c \<and> c \<le> 122))"

text \<open>Two characters that the patterns cannot tell apart when case is ignored.\<close>

definition same_class :: "ucd \<Rightarrow> nat \<Rightarrow> nat \<Rightarrow> bool" where
  "same_class U a b =
     (u_space U a = u_space U b \<and> u_word U a = u_word U b \<and> u_digit U a = u_digit U b
      \<and> list_all (\<lambda>x. u_ieq U x a = u_ieq U x b) [0..<128])"

text \<open>
  The properties of Python's tables that the proofs use:
  \<^item> the white space among the ASCII code points is tab, line feed, vertical tab, form
    feed, carriage return, the four separators \<open>0x1C\<close> to \<open>0x1F\<close> and the blank;
  \<^item> no white space is a word character, and every digit is a word character;
  \<^item> ignoring case, an ASCII character that is no letter matches itself only, and an
    ASCII letter matches word characters only;
  \<^item> the case forms of a letter are in the same classes as the letter, and the same
    ASCII pattern characters match them.
\<close>

definition py_ucd :: "ucd \<Rightarrow> bool" where
  "py_ucd U =
     ((\<forall>c<128. u_space U c = ascii_space c)
      \<and> (\<forall>c. u_space U c \<longrightarrow> \<not> u_word U c)
      \<and> (\<forall>c. u_digit U c \<longrightarrow> u_word U c)
      \<and> (\<forall>x<128. \<not> ascii_letter x \<longrightarrow> (\<forall>c. u_ieq U x c = (c = x)))
      \<and> (\<forall>x<128. ascii_letter x \<longrightarrow> (\<forall>c. u_ieq U x c \<longrightarrow> u_word U c))
      \<and> (\<forall>a. \<forall>b\<in>set (u_cases U a). same_class U a b))"

text \<open>
  The tables of Python 3 on the code points below 256 (Latin-1). On strings of such
  code points the components agree with Python; a case form from 256 on (the
  upper-case forms of \<open>U+00B5\<close> and \<open>U+00FF\<close>) is left out of \<open>u_cases\<close>, and a code
  point from 256 on is taken as a symbol without case. The tables serve to run the
  model on concrete commands; the theorems about all commands are stated for all
  tables with the properties \<open>py_ucd\<close>.
\<close>

definition l1_lower :: "nat \<Rightarrow> nat" where
  "l1_lower c =
     (if (65 \<le> c \<and> c \<le> 90) \<or> (192 \<le> c \<and> c \<le> 214) \<or> (216 \<le> c \<and> c \<le> 222)
      then c + 32 else c)"

definition l1_upper :: "nat \<Rightarrow> nat" where
  "l1_upper c =
     (if (97 \<le> c \<and> c \<le> 122) \<or> (224 \<le> c \<and> c \<le> 246) \<or> (248 \<le> c \<and> c \<le> 254)
      then c - 32 else c)"

definition l1_space :: "nat \<Rightarrow> bool" where
  "l1_space c = (c \<in> set [9, 10, 11, 12, 13, 28, 29, 30, 31, 32, 133, 160])"

definition l1_digit :: "nat \<Rightarrow> bool" where
  "l1_digit c = (48 \<le> c \<and> c \<le> 57)"

definition l1_word :: "nat \<Rightarrow> bool" where
  "l1_word c =
     ((48 \<le> c \<and> c \<le> 57) \<or> (65 \<le> c \<and> c \<le> 90) \<or> c = 95 \<or> (97 \<le> c \<and> c \<le> 122)
      \<or> c = 170 \<or> c = 178 \<or> c = 179 \<or> c = 181 \<or> c = 185 \<or> c = 186
      \<or> (188 \<le> c \<and> c \<le> 190) \<or> (192 \<le> c \<and> c \<le> 214) \<or> (216 \<le> c \<and> c \<le> 246)
      \<or> (248 \<le> c \<and> c \<le> 255))"

definition latin1 :: ucd where
  "latin1 =
     \<lparr> u_space = l1_space,
       u_word = l1_word,
       u_digit = l1_digit,
       u_ieq = (\<lambda>x c. l1_lower c = l1_lower x),
       u_lower = map l1_lower,
       u_cases = (\<lambda>c. [l1_lower c, l1_upper c]) \<rparr>"

text \<open>
  One-character items of a pattern: a literal, \<open>.\<close> (any character but a line feed),
  \<open>\\s\<close>, \<open>\\S\<close>, \<open>\\d\<close>, a range \<open>[a-z]\<close> and a set \<open>[sh]\<close>. The characters of a
  pattern are characters of the source text. Under \<open>re.IGNORECASE\<close> a literal
  matches by \<open>u_ieq\<close>, and a range or set matches when one of its members does.
\<close>

datatype atom =
  Lit char | AnyCh | Space | NonSpace | Digit | Range char char | OneOf "char list"

fun amatch :: "ucd \<Rightarrow> bool \<Rightarrow> atom \<Rightarrow> nat \<Rightarrow> bool" where
  "amatch U ic (Lit x) c = (if ic then u_ieq U (of_char x) c else c = of_char x)"
| "amatch U ic AnyCh c = (c \<noteq> 10)"
| "amatch U ic Space c = u_space U c"
| "amatch U ic NonSpace c = (\<not> u_space U c)"
| "amatch U ic Digit c = u_digit U c"
| "amatch U ic (Range lo hi) c =
     (if ic then list_ex (\<lambda>x. u_ieq U x c) [of_char lo..<Suc (of_char hi)]
      else of_char lo \<le> c \<and> c \<le> of_char hi)"
| "amatch U ic (OneOf cs) c =
     (if ic then list_ex (\<lambda>x. u_ieq U (of_char x) c) cs
      else list_ex (\<lambda>x. c = of_char x) cs)"

datatype regex =
  Atom atom
  | Eps
  | Seq regex regex
  | Alt regex regex
  | Star regex
  | Bol
  | Eol
  | WordB
  | NotAhead regex

abbreviation chr :: "char \<Rightarrow> regex" where "chr c \<equiv> Atom (Lit c)"
abbreviation any :: regex where "any \<equiv> Atom AnyCh"
abbreviation sp :: regex where "sp \<equiv> Atom Space"
abbreviation nsp :: regex where "nsp \<equiv> Atom NonSpace"
abbreviation dig :: regex where "dig \<equiv> Atom Digit"

text \<open>\<open>r+\<close>, \<open>r?\<close>, a sequence, an alternation and a literal string.\<close>

definition plus :: "regex \<Rightarrow> regex" where
  "plus r = Seq r (Star r)"

definition opt :: "regex \<Rightarrow> regex" where
  "opt r = Alt r Eps"

fun cat :: "regex list \<Rightarrow> regex" where
  "cat [] = Eps"
| "cat [r] = r"
| "cat (r # rs) = Seq r (cat rs)"

fun alts :: "regex list \<Rightarrow> regex" where
  "alts [] = NotAhead Eps"
| "alts [r] = r"
| "alts (r # rs) = Alt r (alts rs)"

definition lits :: "string \<Rightarrow> regex" where
  "lits s = cat (map chr s)"

text \<open>
  A position in the subject is the character before it (if any) and the rest of the
  subject. \<open>ends r U ic pos\<close> lists the positions at which a match of \<open>r\<close> that starts
  at \<open>pos\<close> can end. A star repeats its body only while the body consumes input, which
  loses no end position; the number of repetitions is then bounded by the length of the
  rest.
\<close>

type_synonym pos = "nat option \<times> ustring"

fun star_ends :: "(pos \<Rightarrow> pos list) \<Rightarrow> nat \<Rightarrow> pos \<Rightarrow> pos list" where
  "star_ends f 0 p = [p]"
| "star_ends f (Suc n) p =
     p # concat (map (star_ends f n)
                   (filter (\<lambda>q. length (snd q) < length (snd p)) (f p)))"

definition word_before :: "ucd \<Rightarrow> pos \<Rightarrow> bool" where
  "word_before U p = (case fst p of None \<Rightarrow> False | Some c \<Rightarrow> u_word U c)"

definition word_after :: "ucd \<Rightarrow> pos \<Rightarrow> bool" where
  "word_after U p = (case snd p of [] \<Rightarrow> False | c # cs \<Rightarrow> u_word U c)"

primrec ends :: "regex \<Rightarrow> ucd \<Rightarrow> bool \<Rightarrow> pos \<Rightarrow> pos list" where
  "ends (Atom a) U ic p =
     (case snd p of
        [] \<Rightarrow> []
      | c # cs \<Rightarrow> if amatch U ic a c then [(Some c, cs)] else [])"
| "ends Eps U ic p = [p]"
| "ends (Seq r1 r2) U ic p = remdups (concat (map (ends r2 U ic) (ends r1 U ic p)))"
| "ends (Alt r1 r2) U ic p = remdups (ends r1 U ic p @ ends r2 U ic p)"
| "ends (Star r) U ic p = remdups (star_ends (ends r U ic) (length (snd p)) p)"
| "ends Bol U ic p = (if fst p = None then [p] else [])"
| "ends Eol U ic p = (if snd p = [] \<or> snd p = [10] then [p] else [])"
| "ends WordB U ic p = (if word_before U p \<noteq> word_after U p then [p] else [])"
| "ends (NotAhead r) U ic p = (if ends r U ic p = [] then [p] else [])"

text \<open>
  \<open>pattern.search(s)\<close> tries every start position from the left;
  \<open>pattern.match(s)\<close> tries the start of the subject only. Both are used as truth values.
\<close>

fun search_from :: "regex \<Rightarrow> ucd \<Rightarrow> bool \<Rightarrow> nat option \<Rightarrow> ustring \<Rightarrow> bool" where
  "search_from r U ic b [] = (ends r U ic (b, []) \<noteq> [])"
| "search_from r U ic b (c # cs) =
     (if ends r U ic (b, c # cs) \<noteq> [] then True else search_from r U ic (Some c) cs)"

definition re_search :: "regex \<Rightarrow> ucd \<Rightarrow> bool \<Rightarrow> ustring \<Rightarrow> bool" where
  "re_search r U ic s = search_from r U ic None s"

definition re_match :: "regex \<Rightarrow> ucd \<Rightarrow> bool \<Rightarrow> ustring \<Rightarrow> bool" where
  "re_match r U ic s = (ends r U ic (None, s) \<noteq> [])"

text \<open>\<open>str.strip()\<close>.\<close>

definition strip :: "ucd \<Rightarrow> ustring \<Rightarrow> ustring" where
  "strip U s = rev (dropWhile (u_space U) (rev (dropWhile (u_space U) s)))"

definition ALWAYS_DENIED :: "regex list" where
  \<open>ALWAYS_DENIED =
       \<comment> \<open>ganesha\s+.*--auto\<close>
     [ cat [lits ''ganesha'', plus sp, Star any, lits ''--auto'']
       \<comment> \<open>ganesha\s+.*-A\b\<close>
     , cat [lits ''ganesha'', plus sp, Star any, lits ''-A'', WordB]
       \<comment> \<open>ganesha\s+.*--yes\<close>
     , cat [lits ''ganesha'', plus sp, Star any, lits ''--yes'']
       \<comment> \<open>ganesha\s+.*-y\b\<close>
     , cat [lits ''ganesha'', plus sp, Star any, lits ''-y'', WordB]
       \<comment> \<open>ganesha-daemon\s+.*--level\s+full\<close>
     , cat [lits ''ganesha-daemon'', plus sp, Star any, lits ''--level'', plus sp,
         lits ''full'']
       \<comment> \<open>ganesha-config\s+.*set-level\s+full\<close>
     , cat [lits ''ganesha-config'', plus sp, Star any, lits ''set-level'', plus sp,
         lits ''full'']
       \<comment> \<open>ganesha-config\s+.*reset\<close>
     , cat [lits ''ganesha-config'', plus sp, Star any, lits ''reset'']
       \<comment> \<open>python.*ganesha.*--auto\<close>
     , cat [lits ''python'', Star any, lits ''ganesha'', Star any, lits ''--auto'']
       \<comment> \<open>python.*ganesha.*-A\b\<close>
     , cat [lits ''python'', Star any, lits ''ganesha'', Star any, lits ''-A'', WordB]
       \<comment> \<open>(rm|mv|cp|cat\s*>|echo\s*>).*\.ganesha/\<close>
     , cat [alts [lits ''rm'', lits ''mv'', lits ''cp'', cat [lits ''cat'', Star sp,
         chr CHR ''>''], cat [lits ''echo'', Star sp, chr CHR ''>'']], Star any,
         lits ''.ganesha/'']
       \<comment> \<open>(rm|mv|cp|cat\s*>|echo\s*>).*/etc/ganesha/\<close>
     , cat [alts [lits ''rm'', lits ''mv'', lits ''cp'', cat [lits ''cat'', Star sp,
         chr CHR ''>''], cat [lits ''echo'', Star sp, chr CHR ''>'']], Star any,
         lits ''/etc/ganesha/'']
       \<comment> \<open>(rm|mv|cp|cat\s*>|echo\s*>).*/var/log/ganesha/\<close>
     , cat [alts [lits ''rm'', lits ''mv'', lits ''cp'', cat [lits ''cat'', Star sp,
         chr CHR ''>''], cat [lits ''echo'', Star sp, chr CHR ''>'']], Star any,
         lits ''/var/log/ganesha/'']
       \<comment> \<open>(rm|truncate|cat\s*/dev/null\s*>).*(/var/log/syslog|/var/log/messages)\<close>
     , cat [alts [lits ''rm'', lits ''truncate'', cat [lits ''cat'', Star sp,
         lits ''/dev/null'', Star sp, chr CHR ''>'']], Star any,
         alts [lits ''/var/log/syslog'', lits ''/var/log/messages'']]
       \<comment> \<open>journalctl\s+--vacuum\<close>
     , cat [lits ''journalctl'', plus sp, lits ''--vacuum'']
       \<comment> \<open>(rm|truncate).*\.xsession-errors\<close>
     , cat [alts [lits ''rm'', lits ''truncate''], Star any, lits ''.xsession-errors'']
       \<comment> \<open>rm\s+(-rf?|--recursive)\s+/\s*$\<close>
     , cat [lits ''rm'', plus sp, alts [cat [lits ''-r'', opt (chr CHR ''f'')],
         lits ''--recursive''], plus sp, chr CHR ''/'', Star sp, Eol]
       \<comment> \<open>rm\s+(-rf?|--recursive)\s+/\*\<close>
     , cat [lits ''rm'', plus sp, alts [cat [lits ''-r'', opt (chr CHR ''f'')],
         lits ''--recursive''], plus sp, lits ''/*'']
       \<comment> \<open>rm\s+(-rf?|--recursive)\s+/home\s*$\<close>
     , cat [lits ''rm'', plus sp, alts [cat [lits ''-r'', opt (chr CHR ''f'')],
         lits ''--recursive''], plus sp, lits ''/home'', Star sp, Eol]
       \<comment> \<open>rm\s+(-rf?|--recursive)\s+/etc\s*$\<close>
     , cat [lits ''rm'', plus sp, alts [cat [lits ''-r'', opt (chr CHR ''f'')],
         lits ''--recursive''], plus sp, lits ''/etc'', Star sp, Eol]
       \<comment> \<open>rm\s+(-rf?|--recursive)\s+/var\s*$\<close>
     , cat [lits ''rm'', plus sp, alts [cat [lits ''-r'', opt (chr CHR ''f'')],
         lits ''--recursive''], plus sp, lits ''/var'', Star sp, Eol]
       \<comment> \<open>rm\s+(-rf?|--recursive)\s+/usr\s*$\<close>
     , cat [lits ''rm'', plus sp, alts [cat [lits ''-r'', opt (chr CHR ''f'')],
         lits ''--recursive''], plus sp, lits ''/usr'', Star sp, Eol]
       \<comment> \<open>:\(\)\s*\{\s*:\|:&\s*\}\s*;:\<close>
     , cat [lits '':()'', Star sp, chr CHR ''{'', Star sp, lits '':|:&'', Star sp,
         chr CHR ''}'', Star sp, lits '';:'']
       \<comment> \<open>\.\/\s*\S+\s*\|\s*\.\/\s*\S+\s*&\<close>
     , cat [lits ''./'', Star sp, plus nsp, Star sp, chr CHR ''|'', Star sp, lits ''./'',
         Star sp, plus nsp, Star sp, chr CHR ''&'']
       \<comment> \<open>dd\s+.*of=/dev/[sh]d[a-z]\s*$\<close>
     , cat [lits ''dd'', plus sp, Star any, lits ''of=/dev/'', Atom (OneOf ''sh''),
         chr CHR ''d'', Atom (Range CHR ''a'' CHR ''z''), Star sp, Eol]
       \<comment> \<open>mkfs\s+.*\s+/dev/[sh]d[a-z][0-9]*\<close>
     , cat [lits ''mkfs'', plus sp, Star any, plus sp, lits ''/dev/'',
         Atom (OneOf ''sh''), chr CHR ''d'', Atom (Range CHR ''a'' CHR ''z''),
         Star (Atom (Range CHR ''0'' CHR ''9''))]
       \<comment> \<open>wipefs\<close>
     , lits ''wipefs''
       \<comment> \<open>dd\s+.*of=/dev/nvme\<close>
     , cat [lits ''dd'', plus sp, Star any, lits ''of=/dev/nvme'']
       \<comment> \<open>flashrom\<close>
     , lits ''flashrom''
       \<comment> \<open>(curl|wget|nc)\s+.*(/etc/shadow|/etc/passwd|\.ssh/)\<close>
     , cat [alts [lits ''curl'', lits ''wget'', lits ''nc''], plus sp, Star any,
         alts [lits ''/etc/shadow'', lits ''/etc/passwd'', lits ''.ssh/'']]
       \<comment> \<open>cat\s+.*\.ssh/(id_rsa|id_ed25519)\s*\|\<close>
     , cat [lits ''cat'', plus sp, Star any, lits ''.ssh/'', alts [lits ''id_rsa'',
         lits ''id_ed25519''], Star sp, chr CHR ''|'']
       \<comment> \<open>insmod\s+.*\.ko\<close>
     , cat [lits ''insmod'', plus sp, Star any, lits ''.ko'']
       \<comment> \<open>rmmod\<close>
     , lits ''rmmod''
       \<comment> \<open>echo\s+.*>\s*/proc/sys\<close>
     , cat [lits ''echo'', plus sp, Star any, chr CHR ''>'', Star sp, lits ''/proc/sys'']
       \<comment> \<open>setenforce\s+0\<close>
     , cat [lits ''setenforce'', plus sp, chr CHR ''0'']
       \<comment> \<open>systemctl\s+(stop|disable)\s+.*firewall\<close>
     , cat [lits ''systemctl'', plus sp, alts [lits ''stop'', lits ''disable''], plus sp,
         Star any, lits ''firewall'']
       \<comment> \<open>ufw\s+disable\<close>
     , cat [lits ''ufw'', plus sp, lits ''disable'']
       \<comment> \<open>iptables\s+-F\<close>
     , cat [lits ''iptables'', plus sp, lits ''-F'']
     ]\<close>


definition self_invoke_patterns :: "regex list" where
  \<open>self_invoke_patterns =
       \<comment> \<open>ganesha\s+.*--auto\<close>
     [ cat [lits ''ganesha'', plus sp, Star any, lits ''--auto'']
       \<comment> \<open>ganesha\s+.*-A\b\<close>
     , cat [lits ''ganesha'', plus sp, Star any, lits ''-A'', WordB]
       \<comment> \<open>ganesha\s+.*--yes\<close>
     , cat [lits ''ganesha'', plus sp, Star any, lits ''--yes'']
       \<comment> \<open>python.*ganesha.*--auto\<close>
     , cat [lits ''python'', Star any, lits ''ganesha'', Star any, lits ''--auto'']
     ]\<close>

definition PRESET_RESTRICTED_allowed_patterns :: "regex list" where
  \<open>PRESET_RESTRICTED_allowed_patterns =
       \<comment> \<open>^cat\s+\<close>
     [ cat [Bol, lits ''cat'', plus sp]
       \<comment> \<open>^less\s+\<close>
     , cat [Bol, lits ''less'', plus sp]
       \<comment> \<open>^head\s+\<close>
     , cat [Bol, lits ''head'', plus sp]
       \<comment> \<open>^tail\s+\<close>
     , cat [Bol, lits ''tail'', plus sp]
       \<comment> \<open>^ls\s+\<close>
     , cat [Bol, lits ''ls'', plus sp]
       \<comment> \<open>^ls$\<close>
     , cat [Bol, lits ''ls'', Eol]
       \<comment> \<open>^find\s+.*-type\<close>
     , cat [Bol, lits ''find'', plus sp, Star any, lits ''-type'']
       \<comment> \<open>^file\s+\<close>
     , cat [Bol, lits ''file'', plus sp]
       \<comment> \<open>^stat\s+\<close>
     , cat [Bol, lits ''stat'', plus sp]
       \<comment> \<open>^wc\s+\<close>
     , cat [Bol, lits ''wc'', plus sp]
       \<comment> \<open>^uname\s+\<close>
     , cat [Bol, lits ''uname'', plus sp]
       \<comment> \<open>^hostname$\<close>
     , cat [Bol, lits ''hostname'', Eol]
       \<comment> \<open>^uptime$\<close>
     , cat [Bol, lits ''uptime'', Eol]
       \<comment> \<open>^whoami$\<close>
     , cat [Bol, lits ''whoami'', Eol]
       \<comment> \<open>^id$\<close>
     , cat [Bol, lits ''id'', Eol]
       \<comment> \<open>^groups$\<close>
     , cat [Bol, lits ''groups'', Eol]
       \<comment> \<open>^df\s+\<close>
     , cat [Bol, lits ''df'', plus sp]
       \<comment> \<open>^du\s+\<close>
     , cat [Bol, lits ''du'', plus sp]
       \<comment> \<open>^free\s+\<close>
     , cat [Bol, lits ''free'', plus sp]
       \<comment> \<open>^lscpu$\<close>
     , cat [Bol, lits ''lscpu'', Eol]
       \<comment> \<open>^lsblk$\<close>
     , cat [Bol, lits ''lsblk'', Eol]
       \<comment> \<open>^lspci$\<close>
     , cat [Bol, lits ''lspci'', Eol]
       \<comment> \<open>^lsusb$\<close>
     , cat [Bol, lits ''lsusb'', Eol]
       \<comment> \<open>^lsof\s+\<close>
     , cat [Bol, lits ''lsof'', plus sp]
       \<comment> \<open>^ps\s+\<close>
     , cat [Bol, lits ''ps'', plus sp]
       \<comment> \<open>^top\s+-b\s+-n\s*1\<close>
     , cat [Bol, lits ''top'', plus sp, lits ''-b'', plus sp, lits ''-n'', Star sp,
         chr CHR ''1'']
       \<comment> \<open>^htop\s+--no-color.*-t\<close>
     , cat [Bol, lits ''htop'', plus sp, lits ''--no-color'', Star any, lits ''-t'']
       \<comment> \<open>^ip\s+(addr|link|route)\s*(show)?\<close>
     , cat [Bol, lits ''ip'', plus sp, alts [lits ''addr'', lits ''link'',
         lits ''route''], Star sp, opt (lits ''show'')]
       \<comment> \<open>^ifconfig$\<close>
     , cat [Bol, lits ''ifconfig'', Eol]
       \<comment> \<open>^netstat\s+\<close>
     , cat [Bol, lits ''netstat'', plus sp]
       \<comment> \<open>^ss\s+\<close>
     , cat [Bol, lits ''ss'', plus sp]
       \<comment> \<open>^ping\s+-c\s+\d+\s+\<close>
     , cat [Bol, lits ''ping'', plus sp, lits ''-c'', plus sp, plus dig, plus sp]
       \<comment> \<open>^dig\s+\<close>
     , cat [Bol, lits ''dig'', plus sp]
       \<comment> \<open>^nslookup\s+\<close>
     , cat [Bol, lits ''nslookup'', plus sp]
       \<comment> \<open>^host\s+\<close>
     , cat [Bol, lits ''host'', plus sp]
       \<comment> \<open>^systemctl\s+status\s+\<close>
     , cat [Bol, lits ''systemctl'', plus sp, lits ''status'', plus sp]
       \<comment> \<open>^systemctl\s+is-active\s+\<close>
     , cat [Bol, lits ''systemctl'', plus sp, lits ''is-active'', plus sp]
       \<comment> \<open>^systemctl\s+is-enabled\s+\<close>
     , cat [Bol, lits ''systemctl'', plus sp, lits ''is-enabled'', plus sp]
       \<comment> \<open>^systemctl\s+list-units\<close>
     , cat [Bol, lits ''systemctl'', plus sp, lits ''list-units'']
       \<comment> \<open>^service\s+\S+\s+status$\<close>
     , cat [Bol, lits ''service'', plus sp, plus nsp, plus sp, lits ''status'', Eol]
       \<comment> \<open>^docker\s+(ps|images|info|version|inspect)\<close>
     , cat [Bol, lits ''docker'', plus sp, alts [lits ''ps'', lits ''images'',
         lits ''info'', lits ''version'', lits ''inspect'']]
       \<comment> \<open>^docker\s+logs\s+\<close>
     , cat [Bol, lits ''docker'', plus sp, lits ''logs'', plus sp]
       \<comment> \<open>^apt\s+(list|show|search)\<close>
     , cat [Bol, lits ''apt'', plus sp, alts [lits ''list'', lits ''show'',
         lits ''search'']]
       \<comment> \<open>^apt-cache\s+\<close>
     , cat [Bol, lits ''apt-cache'', plus sp]
       \<comment> \<open>^dpkg\s+-[lLsS]\<close>
     , cat [Bol, lits ''dpkg'', plus sp, chr CHR ''-'', Atom (OneOf ''lLsS'')]
       \<comment> \<open>^pip\s+(list|show|freeze)\<close>
     , cat [Bol, lits ''pip'', plus sp, alts [lits ''list'', lits ''show'',
         lits ''freeze'']]
       \<comment> \<open>^pip3\s+(list|show|freeze)\<close>
     , cat [Bol, lits ''pip3'', plus sp, alts [lits ''list'', lits ''show'',
         lits ''freeze'']]
       \<comment> \<open>^npm\s+(list|ls|view)\<close>
     , cat [Bol, lits ''npm'', plus sp, alts [lits ''list'', lits ''ls'', lits ''view'']]
       \<comment> \<open>^git\s+(status|log|diff|branch|remote|show)\<close>
     , cat [Bol, lits ''git'', plus sp, alts [lits ''status'', lits ''log'',
         lits ''diff'', lits ''branch'', lits ''remote'', lits ''show'']]
       \<comment> \<open>^env$\<close>
     , cat [Bol, lits ''env'', Eol]
       \<comment> \<open>^printenv\<close>
     , cat [Bol, lits ''printenv'']
       \<comment> \<open>^echo\s+\$\<close>
     , cat [Bol, lits ''echo'', plus sp, chr CHR ''$'']
     ]\<close>

definition PRESET_STANDARD_allowed_patterns :: "regex list" where
  \<open>PRESET_STANDARD_allowed_patterns =
       \<comment> \<open>^mkdir\s+\<close>
     [ cat [Bol, lits ''mkdir'', plus sp]
       \<comment> \<open>^touch\s+\<close>
     , cat [Bol, lits ''touch'', plus sp]
       \<comment> \<open>^cp\s+\<close>
     , cat [Bol, lits ''cp'', plus sp]
       \<comment> \<open>^mv\s+\<close>
     , cat [Bol, lits ''mv'', plus sp]
       \<comment> \<open>^rm\s+(?!-rf?\s+/)\<close>
     , cat [Bol, lits ''rm'', plus sp, NotAhead (cat [lits ''-r'', opt (chr CHR ''f''),
         plus sp, chr CHR ''/''])]
       \<comment> \<open>^chmod\s+\<close>
     , cat [Bol, lits ''chmod'', plus sp]
       \<comment> \<open>^chown\s+\<close>
     , cat [Bol, lits ''chown'', plus sp]
       \<comment> \<open>^ln\s+\<close>
     , cat [Bol, lits ''ln'', plus sp]
       \<comment> \<open>^grep\s+\<close>
     , cat [Bol, lits ''grep'', plus sp]
       \<comment> \<open>^awk\s+\<close>
     , cat [Bol, lits ''awk'', plus sp]
       \<comment> \<open>^sed\s+\<close>
     , cat [Bol, lits ''sed'', plus sp]
       \<comment> \<open>^sort\s+\<close>
     , cat [Bol, lits ''sort'', plus sp]
       \<comment> \<open>^uniq\s+\<close>
     , cat [Bol, lits ''uniq'', plus sp]
       \<comment> \<open>^cut\s+\<close>
     , cat [Bol, lits ''cut'', plus sp]
       \<comment> \<open>^tr\s+\<close>
     , cat [Bol, lits ''tr'', plus sp]
       \<comment> \<open>^tar\s+\<close>
     , cat [Bol, lits ''tar'', plus sp]
       \<comment> \<open>^gzip\s+\<close>
     , cat [Bol, lits ''gzip'', plus sp]
       \<comment> \<open>^gunzip\s+\<close>
     , cat [Bol, lits ''gunzip'', plus sp]
       \<comment> \<open>^zip\s+\<close>
     , cat [Bol, lits ''zip'', plus sp]
       \<comment> \<open>^unzip\s+\<close>
     , cat [Bol, lits ''unzip'', plus sp]
       \<comment> \<open>^curl\s+(?!.*(/etc/shadow|\.ssh/))\<close>
     , cat [Bol, lits ''curl'', plus sp, NotAhead (cat [Star any,
         alts [lits ''/etc/shadow'', lits ''.ssh/'']])]
       \<comment> \<open>^wget\s+(?!.*(/etc/shadow|\.ssh/))\<close>
     , cat [Bol, lits ''wget'', plus sp, NotAhead (cat [Star any,
         alts [lits ''/etc/shadow'', lits ''.ssh/'']])]
       \<comment> \<open>^kill\s+\d+\<close>
     , cat [Bol, lits ''kill'', plus sp, plus dig]
       \<comment> \<open>^pkill\s+\<close>
     , cat [Bol, lits ''pkill'', plus sp]
       \<comment> \<open>^killall\s+\<close>
     , cat [Bol, lits ''killall'', plus sp]
       \<comment> \<open>^docker\s+(pull|run|stop|start|restart|rm|exec)\<close>
     , cat [Bol, lits ''docker'', plus sp, alts [lits ''pull'', lits ''run'',
         lits ''stop'', lits ''start'', lits ''restart'', lits ''rm'', lits ''exec'']]
       \<comment> \<open>^docker-compose\s+\<close>
     , cat [Bol, lits ''docker-compose'', plus sp]
       \<comment> \<open>^git\s+(add|commit|push|pull|fetch|checkout|merge|rebase)\<close>
     , cat [Bol, lits ''git'', plus sp, alts [lits ''add'', lits ''commit'',
         lits ''push'', lits ''pull'', lits ''fetch'', lits ''checkout'', lits ''merge'',
         lits ''rebase'']]
       \<comment> \<open>^nano\s+\<close>
     , cat [Bol, lits ''nano'', plus sp]
       \<comment> \<open>^vim?\s+\<close>
     , cat [Bol, lits ''vi'', opt (chr CHR ''m''), plus sp]
       \<comment> \<open>^python3?\s+\<close>
     , cat [Bol, lits ''python'', opt (chr CHR ''3''), plus sp]
       \<comment> \<open>^pip3?\s+install\s+--user\<close>
     , cat [Bol, lits ''pip'', opt (chr CHR ''3''), plus sp, lits ''install'', plus sp,
         lits ''--user'']
       \<comment> \<open>^node\s+\<close>
     , cat [Bol, lits ''node'', plus sp]
       \<comment> \<open>^npm\s+(install|run|start|test)\<close>
     , cat [Bol, lits ''npm'', plus sp, alts [lits ''install'', lits ''run'',
         lits ''start'', lits ''test'']]
       \<comment> \<open>^crontab\s+\<close>
     , cat [Bol, lits ''crontab'', plus sp]
     ]\<close>

definition PRESET_ELEVATED_allowed_patterns :: "regex list" where
  \<open>PRESET_ELEVATED_allowed_patterns =
       \<comment> \<open>^apt\s+(update|upgrade|install|remove|purge|autoremove)\<close>
     [ cat [Bol, lits ''apt'', plus sp, alts [lits ''update'', lits ''upgrade'',
         lits ''install'', lits ''remove'', lits ''purge'', lits ''autoremove'']]
       \<comment> \<open>^apt-get\s+\<close>
     , cat [Bol, lits ''apt-get'', plus sp]
       \<comment> \<open>^dpkg\s+-i\<close>
     , cat [Bol, lits ''dpkg'', plus sp, lits ''-i'']
       \<comment> \<open>^pip3?\s+install(?!\s+--user)\<close>
     , cat [Bol, lits ''pip'', opt (chr CHR ''3''), plus sp, lits ''install'',
         NotAhead (cat [plus sp, lits ''--user''])]
       \<comment> \<open>^npm\s+install\s+-g\<close>
     , cat [Bol, lits ''npm'', plus sp, lits ''install'', plus sp, lits ''-g'']
       \<comment> \<open>^systemctl\s+(start|stop|restart|reload|enable|disable)\s+\<close>
     , cat [Bol, lits ''systemctl'', plus sp, alts [lits ''start'', lits ''stop'',
         lits ''restart'', lits ''reload'', lits ''enable'', lits ''disable''], plus sp]
       \<comment> \<open>^service\s+\S+\s+(start|stop|restart|reload)$\<close>
     , cat [Bol, lits ''service'', plus sp, plus nsp, plus sp, alts [lits ''start'',
         lits ''stop'', lits ''restart'', lits ''reload''], Eol]
       \<comment> \<open>^docker\s+(build|network|volume)\<close>
     , cat [Bol, lits ''docker'', plus sp, alts [lits ''build'', lits ''network'',
         lits ''volume'']]
       \<comment> \<open>^hostnamectl\s+\<close>
     , cat [Bol, lits ''hostnamectl'', plus sp]
       \<comment> \<open>^timedatectl\s+\<close>
     , cat [Bol, lits ''timedatectl'', plus sp]
       \<comment> \<open>^localectl\s+\<close>
     , cat [Bol, lits ''localectl'', plus sp]
       \<comment> \<open>^useradd\s+\<close>
     , cat [Bol, lits ''useradd'', plus sp]
       \<comment> \<open>^usermod\s+\<close>
     , cat [Bol, lits ''usermod'', plus sp]
       \<comment> \<open>^passwd\s+\<close>
     , cat [Bol, lits ''passwd'', plus sp]
       \<comment> \<open>^groupadd\s+\<close>
     , cat [Bol, lits ''groupadd'', plus sp]
       \<comment> \<open>^ufw\s+(allow|deny|status|enable)\<close>
     , cat [Bol, lits ''ufw'', plus sp, alts [lits ''allow'', lits ''deny'',
         lits ''status'', lits ''enable'']]
       \<comment> \<open>^mount\s+\<close>
     , cat [Bol, lits ''mount'', plus sp]
       \<comment> \<open>^umount\s+\<close>
     , cat [Bol, lits ''umount'', plus sp]
       \<comment> \<open>^lsblk\s+\<close>
     , cat [Bol, lits ''lsblk'', plus sp]
       \<comment> \<open>^blkid\s+\<close>
     , cat [Bol, lits ''blkid'', plus sp]
     ]\<close>

definition PRESET_FULL_ACCESS_allowed_patterns :: "regex list" where
  \<open>PRESET_FULL_ACCESS_allowed_patterns =
       \<comment> \<open>.*\<close>
     [ Star any
     ]\<close>

section \<open>Access control (ganesha/daemon/access_control.py)\<close>

datatype access_level = RESTRICTED | STANDARD | ELEVATED | FULL_ACCESS | WHITELIST | BLACKLIST

text \<open>The value of an \<open>AccessLevel\<close> member, and \<open>AccessLevel(name)\<close>.\<close>

fun level_value :: "access_level \<Rightarrow> string" where
  "level_value RESTRICTED = ''restricted''"
| "level_value STANDARD = ''standard''"
| "level_value ELEVATED = ''elevated''"
| "level_value FULL_ACCESS = ''full_access''"
| "level_value WHITELIST = ''whitelist''"
| "level_value BLACKLIST = ''blacklist''"

definition AccessLevel :: "string \<Rightarrow> access_level option" where
  "AccessLevel name =
     find (\<lambda>l. level_value l = name)
       [RESTRICTED, STANDARD, ELEVATED, FULL_ACCESS, WHITELIST, BLACKLIST]"

text \<open>
  The dataclass \<open>AccessPolicy\<close>. An entry of the user's white list or black list is
  held as what \<open>re.compile\<close> makes of it: the pattern, or \<open>None\<close> when the entry is no
  regular expression and \<open>re.compile\<close> raises \<open>re.error\<close>.
\<close>

record access_policy =
  level :: access_level
  whitelist :: "regex option list"
  blacklist :: "regex option list"
  allowed_paths :: "string list"
  denied_paths :: "string list"
  require_approval_for_high_risk :: bool
  audit_all_commands :: bool
  max_execution_time :: int

text \<open>The presets: a dictionary with the keys \<open>description\<close>, \<open>inherits\<close>, \<open>allowed_patterns\<close>.\<close>

record preset =
  description :: string
  inherits :: "string option"
  allowed_patterns :: "regex list"

definition PRESET_RESTRICTED :: preset where
  "PRESET_RESTRICTED =
     \<lparr> description = ''Read-only safe commands. Cannot modify system state.'',
       inherits = None,
       allowed_patterns = PRESET_RESTRICTED_allowed_patterns \<rparr>"

definition PRESET_STANDARD :: preset where
  "PRESET_STANDARD =
     \<lparr> description = ''Common sysadmin tasks. Safe modifications allowed.'',
       inherits = Some ''restricted'',
       allowed_patterns = PRESET_STANDARD_allowed_patterns \<rparr>"

definition PRESET_ELEVATED :: preset where
  "PRESET_ELEVATED =
     \<lparr> description = ''Package management and service control. Requires more trust.'',
       inherits = Some ''standard'',
       allowed_patterns = PRESET_ELEVATED_allowed_patterns \<rparr>"

definition PRESET_FULL_ACCESS :: preset where
  "PRESET_FULL_ACCESS =
     \<lparr> description = ''DANGEROUS: Full system access. Use with extreme caution!'',
       inherits = Some ''elevated'',
       allowed_patterns = PRESET_FULL_ACCESS_allowed_patterns \<rparr>"

fun PRESETS :: "access_level \<Rightarrow> preset option" where
  "PRESETS RESTRICTED = Some PRESET_RESTRICTED"
| "PRESETS STANDARD = Some PRESET_STANDARD"
| "PRESETS ELEVATED = Some PRESET_ELEVATED"
| "PRESETS FULL_ACCESS = Some PRESET_FULL_ACCESS"
| "PRESETS WHITELIST = None"
| "PRESETS BLACKLIST = None"

text \<open>
  The \<open>while inherits\<close> loop of \<open>_compile_patterns\<close>, which follows the chain of
  parents and extends \<open>allowed\<close>. The loop ends because every preset names a parent
  of lower rank. \<open>AccessLevel(inherits)\<close> raises for a name that is no level; every
  name in \<open>PRESETS\<close> is one, and the loop is ended there.
\<close>

fun level_rank :: "access_level \<Rightarrow> nat" where
  "level_rank RESTRICTED = 1"
| "level_rank STANDARD = 2"
| "level_rank ELEVATED = 3"
| "level_rank FULL_ACCESS = 4"
| "level_rank WHITELIST = 0"
| "level_rank BLACKLIST = 0"

function inherit_loop :: "string option \<Rightarrow> regex list \<Rightarrow> regex list" where
  "inherit_loop None allowed = allowed"
| "inherit_loop (Some name) allowed =
     (if name = [] then allowed
      else case AccessLevel name of
             None \<Rightarrow> allowed
           | Some parent_level \<Rightarrow>
               (case PRESETS parent_level of
                  None \<Rightarrow> allowed
                | Some parent \<Rightarrow>
                    inherit_loop (inherits parent) (allowed @ allowed_patterns parent)))"
  by pat_completeness auto
termination
proof (relation "measure (\<lambda>(inh, allowed).
          case inh of
            None \<Rightarrow> 0
          | Some name \<Rightarrow> (case AccessLevel name of None \<Rightarrow> 0 | Some l \<Rightarrow> level_rank l))")
  show "wf (measure (\<lambda>(inh, allowed).
          case inh of
            None \<Rightarrow> 0
          | Some name \<Rightarrow> (case AccessLevel name of None \<Rightarrow> 0 | Some l \<Rightarrow> level_rank l)))"
    by simp
next
  fix name :: string and allowed :: "regex list" and l p
  assume "name \<noteq> []" "AccessLevel name = Some l" "PRESETS l = Some p"
  then show "((inherits p, allowed @ allowed_patterns p), Some name, allowed)
       \<in> measure (\<lambda>(inh, allowed).
          case inh of
            None \<Rightarrow> 0
          | Some name \<Rightarrow> (case AccessLevel name of None \<Rightarrow> 0 | Some l \<Rightarrow> level_rank l))"
    by (cases l)
      (auto simp: AccessLevel_def PRESET_RESTRICTED_def PRESET_STANDARD_def
        PRESET_ELEVATED_def PRESET_FULL_ACCESS_def)
qed

definition preset_allowed :: "access_level \<Rightarrow> regex list" where
  "preset_allowed l =
     (case PRESETS l of
        None \<Rightarrow> []
      | Some p \<Rightarrow> inherit_loop (inherits p) (allowed_patterns p))"

text \<open>
  \<open>AccessController.__init__\<close> with \<open>_compile_patterns\<close>. The constructor raises
  (here: \<open>None\<close>) when an entry of the user's lists does not compile. The compiled
  always-denied patterns and manipulation indicators are the same for every
  controller and are not kept in it; the controller keeps the policy, the preset
  patterns of the level that the policy has at construction (\<open>_preset_allowed\<close>), and
  the two compiled lists of the user (\<open>_whitelist\<close>, \<open>_blacklist\<close>).
\<close>

record access_controller =
  policy :: access_policy
  ctl_preset_allowed :: "regex list"
  ctl_whitelist :: "regex list"
  ctl_blacklist :: "regex list"

definition AccessController :: "access_policy \<Rightarrow> access_controller option" where
  "AccessController pol =
     (case those (whitelist pol) of
        None \<Rightarrow> None
      | Some w \<Rightarrow>
          (case those (blacklist pol) of
             None \<Rightarrow> None
           | Some b \<Rightarrow>
               Some \<lparr> policy = pol, ctl_preset_allowed = preset_allowed (level pol),
                      ctl_whitelist = w, ctl_blacklist = b \<rparr>))"


definition is_self_invocation :: "ucd \<Rightarrow> ustring \<Rightarrow> bool" where
  "is_self_invocation U command =
     list_ex (\<lambda>p. re_search p U True command) self_invoke_patterns"

text \<open>
  \<open>AccessController.check_command\<close>. The always-denied patterns are compiled with
  \<open>re.IGNORECASE\<close>; the preset patterns and the user's lists are compiled without it.
  The preset patterns are tried with \<open>match\<close>, all others with \<open>search\<close>.
\<close>

definition check_command ::
  "ucd \<Rightarrow> access_controller \<Rightarrow> ustring \<Rightarrow> bool \<times> string \<times> string" where
  "check_command U ctl command0 =
     (let command = strip U command0 in
      if list_ex (\<lambda>p. re_search p U True command) ALWAYS_DENIED
      then (False, ''critical'', ''Command matches security-critical deny pattern'')
      else if list_ex (\<lambda>p. re_search p U False command) (ctl_blacklist ctl)
      then (False, ''high'', ''Command matches blacklist pattern'')
      else if level (policy ctl) = WHITELIST
      then (if list_ex (\<lambda>p. re_search p U False command) (ctl_whitelist ctl)
            then (True, ''low'', ''Matched whitelist'')
            else (False, ''medium'', ''Command not in whitelist''))
      else if level (policy ctl) = BLACKLIST
      then (True, ''medium'', ''Not in blacklist'')
      else if list_ex (\<lambda>p. re_match p U False command) (ctl_preset_allowed ctl)
      then (True, ''low'', ''Allowed by '' @ level_value (level (policy ctl)) @ '' preset'')
      else (False, ''medium'',
            ''Command not allowed by '' @ level_value (level (policy ctl)) @ '' preset''))"


text \<open>\<open>sub in s\<close> for strings.\<close>

fun starts_with :: "ustring \<Rightarrow> ustring \<Rightarrow> bool" where
  "starts_with [] s = True"
| "starts_with (x # xs) [] = False"
| "starts_with (x # xs) (c # cs) = (if x = c then starts_with xs cs else False)"

fun contains :: "ustring \<Rightarrow> ustring \<Rightarrow> bool" where
  "contains [] sub = (sub = [])"
| "contains (c # cs) sub = (if starts_with sub (c # cs) then True else contains cs sub)"

text \<open>\<open>AccessController.get_risk_level\<close>.\<close>

definition get_risk_level :: "ucd \<Rightarrow> ustring \<Rightarrow> string" where
  "get_risk_level U command =
     (let command_lower = u_lower U command in
      if list_ex (\<lambda>c. contains command_lower (ords c))
           [''rm -rf'', ''dd if='', ''mkfs'', ''> /dev/'', ''chmod 777 /'']
      then ''critical''
      else if list_ex (\<lambda>c. contains command_lower (ords c))
           [''rm -r'', ''sudo'', ''su -'', ''chmod'', ''chown'', ''kill -9'',
            ''systemctl stop'', ''service stop'', ''iptables'']
      then ''high''
      else if list_ex (\<lambda>c. contains command_lower (ords c))
           [''install'', ''remove'', ''delete'', ''modify'', ''update'',
            ''mv /'', ''cp /'', ''docker run'']
      then ''medium''
      else ''low'')"

text \<open>The order of the four risk levels.\<close>

definition risk_rank :: "string \<Rightarrow> nat" where
  "risk_rank r =
     (if r = ''critical'' then 3 else if r = ''high'' then 2
      else if r = ''medium'' then 1 else 0)"

text \<open>
  The policy that \<open>load_policy\<close> builds from \<open>DEFAULT_CONFIG\<close> when no file is found,
  and the controller built from it.
\<close>

definition default_policy :: access_policy where
  "default_policy =
     \<lparr> level = STANDARD, whitelist = [], blacklist = [],
       allowed_paths = [''/tmp'', ''/home''],
       denied_paths = [''/etc/shadow'', ''/etc/sudoers''],
       require_approval_for_high_risk = True,
       audit_all_commands = True,
       max_execution_time = 300 \<rparr>"

definition default_controller :: access_controller where
  "default_controller =
     \<lparr> policy = default_policy, ctl_preset_allowed = preset_allowed STANDARD,
       ctl_whitelist = [], ctl_blacklist = [] \<rparr>"

section \<open>The privileged daemon (ganesha/daemon/privileged.py)\<close>



text \<open>
  A line of the audit log, as \<open>AuditLogger.log\<close> builds it (without the time stamp).
  The log file is taken to be writable.
\<close>

record audit_entry =
  au_action :: string
  au_user :: string
  au_command :: ustring
  au_allowed :: bool
  au_risk_level :: string
  au_reason :: string
  au_result :: "string option"


text \<open>
  What a child process does is not computed by the program; it is a parameter, for a
  command and a working directory:
  \<^item> \<open>spawn_error\<close>: the message of the exception that \<open>create_subprocess_shell\<close>
    raises, if it raises;
  \<^item> \<open>communicate\<close>: the outcome of \<open>wait_for(process.communicate(), timeout)\<close> for a
    given time-out: the time-out expires, the child exits with a code and its two
    output streams, or an exception is raised;
  \<^item> \<open>kill_wait\<close>: what \<open>process.kill()\<close> followed by \<open>await process.wait()\<close> does
    after the time-out: both return, \<open>kill\<close> raises, or the wait, which has no bound,
    never returns;
  \<^item> \<open>elapsed_ms\<close>: the reading of the clock.
\<close>

datatype comm_outcome = TimedOut | Exited int string string | CommRaised string

datatype kill_outcome = Killed | KillRaised string | WaitHangs

record os_env =
  spawn_error :: "ustring \<Rightarrow> string \<Rightarrow> string option"
  communicate :: "ustring \<Rightarrow> string \<Rightarrow> int \<Rightarrow> comm_outcome"
  kill_wait :: "ustring \<Rightarrow> string \<Rightarrow> kill_outcome"
  elapsed_ms :: int

text \<open>
  What the program does to the world, in order: the call of
  \<open>create_subprocess_shell\<close> with the command and the working directory, the call of
  \<open>wait_for(process.communicate(), timeout)\<close> with its time-out, \<open>process.kill()\<close>,
  \<open>process.wait()\<close>, and a line written to the audit log.
\<close>

datatype effect =
  Spawn ustring string
  | WaitFor int
  | ProcessKill
  | ProcessWait
  | Audit audit_entry


text \<open>\<open>str(n)\<close> for an integer, as an f-string formats it.\<close>

definition digits :: string where
  "digits = ''0123456789''"

function str_nat :: "nat \<Rightarrow> string" where
  "str_nat n = (if n < 10 then [digits ! n] else str_nat (n div 10) @ [digits ! (n mod 10)])"
  by pat_completeness auto
termination
  by (relation "measure (\<lambda>n. n)") auto

definition str_int :: "int \<Rightarrow> string" where
  "str_int i = (if i < 0 then CHR ''-'' # str_nat (nat (- i)) else str_nat (nat i))"



section \<open>The client's fallback (ganesha/daemon/client.py)\<close>

record privileged_result =
  pr_success :: bool
  pr_output :: string
  pr_error :: string
  pr_exit_code :: int
  pr_risk_level :: string
  pr_execution_time_ms :: int
  used_daemon :: bool

text \<open>
  \<open>PrivilegedClient._execute_direct\<close>: the result (\<open>None\<close> when the coroutine never
  returns) and the effects. \<open>controller\<close> is \<open>self._controller\<close> after the attempt to
  load the local policy and to build the controller: \<open>None\<close> when that raised.
\<close>

definition execute_direct ::
  "ucd \<Rightarrow> os_env \<Rightarrow> access_controller option \<Rightarrow> ustring \<Rightarrow> string \<Rightarrow> int
     \<Rightarrow> privileged_result option \<times> effect list" where
  "execute_direct U env controller command working_dir timeout =
     (let risk = (case controller of
                    None \<Rightarrow> ''unknown''
                  | Some ctl \<Rightarrow> fst (snd (check_command U ctl command)))
      in case spawn_error env command working_dir of
           Some e \<Rightarrow>
             (Some \<lparr> pr_success = False, pr_output = [], pr_error = e,
                     pr_exit_code = - 1, pr_risk_level = risk,
                     pr_execution_time_ms = elapsed_ms env, used_daemon = False \<rparr>,
              [Spawn command working_dir])
         | None \<Rightarrow>
             (case communicate env command working_dir timeout of
                TimedOut \<Rightarrow>
                  (case kill_wait env command working_dir of
                     Killed \<Rightarrow>
                       (Some \<lparr> pr_success = False, pr_output = [],
                               pr_error = ''Command timed out after '' @ str_int timeout
                                 @ ''s'',
                               pr_exit_code = - 1, pr_risk_level = risk,
                               pr_execution_time_ms = elapsed_ms env,
                               used_daemon = False \<rparr>,
                        [Spawn command working_dir, WaitFor timeout, ProcessKill,
                         ProcessWait])
                   | WaitHangs \<Rightarrow>
                       (None,
                        [Spawn command working_dir, WaitFor timeout, ProcessKill,
                         ProcessWait])
                   | KillRaised e \<Rightarrow>
                       (Some \<lparr> pr_success = False, pr_output = [], pr_error = e,
                               pr_exit_code = - 1, pr_risk_level = risk,
                               pr_execution_time_ms = elapsed_ms env,
                               used_daemon = False \<rparr>,
                        [Spawn command working_dir, WaitFor timeout, ProcessKill]))
              | Exited rc out err \<Rightarrow>
                  (Some \<lparr> pr_success = (rc = 0), pr_output = out, pr_error = err,
                          pr_exit_code = rc, pr_risk_level = risk,
                          pr_execution_time_ms = elapsed_ms env, used_daemon = False \<rparr>,
                   [Spawn command working_dir, WaitFor timeout])
              | CommRaised e \<Rightarrow>
                  (Some \<lparr> pr_success = False, pr_output = [], pr_error = e,
                          pr_exit_code = - 1, pr_risk_level = risk,
                          pr_execution_time_ms = elapsed_ms env, used_daemon = False \<rparr>,
                   [Spawn command working_dir, WaitFor timeout])))"

section \<open>Concrete inputs\<close>

text \<open>
  An engine whose planner returns one shell action, with automatic approval, whose
  actions all fail and whose recovery planner gives up.
\<close>

definition false_action :: action where
  "false_action =
     \<lparr> act_id = ''a1'', act_type = SHELL_COMMAND, act_command = ''false'',
       explanation = ''fails'', reversible = True, rollback_command = None,
       act_risk_level = ''low'', requires_consent = True \<rparr>"

definition failing_engine :: engine_env where
  "failing_engine =
     \<lparr> planner = (\<lambda>task. Inr \<lparr> plan_id = ''p1'', plan_task = task, actions = [false_action] \<rparr>),
       auto_approve = True,
       consent = None,
       run_action = (\<lambda>n a. \<lparr> res_success = False, res_output = [], res_error = ''exit 1'',
                              duration_ms = 1, action_id = Some (act_id a) \<rparr>),
       recovery = (\<lambda>n a r. None) \<rparr>"



definition quiet_os :: os_env where
  "quiet_os =
     \<lparr> spawn_error = (\<lambda>command cwd. None),
       communicate = (\<lambda>command cwd timeout. Exited 0 [] []),
       kill_wait = (\<lambda>command cwd. Killed),
       elapsed_ms = 5 \<rparr>"



definition full_access_controller :: access_controller where
  "full_access_controller =
     \<lparr> policy = default_policy\<lparr>level := FULL_ACCESS\<rparr>,
       ctl_preset_allowed = preset_allowed FULL_ACCESS,
       ctl_whitelist = [], ctl_blacklist = [] \<rparr>"

text \<open>
  Commands with a no-break space (\<open>U+00A0\<close>) in the place of the blank:
  \<open>ufw disable\<close>, with a blank before it and a blank and a line feed behind it, and
  \<open>ganesha --auto\<close>.
\<close>

definition ufw_nbsp :: ustring where
  "ufw_nbsp = ords '' ufw'' @ [160] @ ords ''disable '' @ [10]"

definition ganesha_nbsp :: ustring where
  "ganesha_nbsp = ords ''ganesha'' @ [160] @ ords ''--auto''"

section \<open>Patterns whose matches survive \<open>strip\<close>\<close>

text \<open>
  \<open>check_command\<close> matches against the stripped command. The following syntactic tests
  describe patterns for which a match in a string gives a match in the stripped string:
  every match starts and ends with a character that is no white space, and the pattern
  has no \<open>^\<close>, \<open>$\<close> or look-ahead (\<open>trim_ok\<close>); or the pattern is such a body
  followed by \<open>\\s*$\<close>.
\<close>

definition plain_char :: "char \<Rightarrow> bool" where
  "plain_char x = ((of_char x :: nat) < 128 \<and> \<not> ascii_space (of_char x))"

fun atom_ns :: "atom \<Rightarrow> bool" where
  "atom_ns (Lit x) = plain_char x"
| "atom_ns AnyCh = False"
| "atom_ns Space = False"
| "atom_ns NonSpace = True"
| "atom_ns Digit = True"
| "atom_ns (Range lo hi) = (32 < (of_char lo :: nat) \<and> (of_char hi :: nat) < 128)"
| "atom_ns (OneOf cs) = list_all plain_char cs"

text \<open>Every match consumes a first character, and it is no white space.\<close>

primrec first_ns :: "regex \<Rightarrow> bool" where
  "first_ns (Atom a) = atom_ns a"
| "first_ns Eps = False"
| "first_ns (Seq r1 r2) = first_ns r1"
| "first_ns (Alt r1 r2) = (first_ns r1 \<and> first_ns r2)"
| "first_ns (Star r) = False"
| "first_ns Bol = False"
| "first_ns Eol = False"
| "first_ns WordB = False"
| "first_ns (NotAhead r) = False"

text \<open>Every match is empty or ends with a character that is no white space.\<close>

primrec last_weak :: "regex \<Rightarrow> bool" where
  "last_weak (Atom a) = atom_ns a"
| "last_weak Eps = True"
| "last_weak (Seq r1 r2) = (last_weak r1 \<and> last_weak r2)"
| "last_weak (Alt r1 r2) = (last_weak r1 \<and> last_weak r2)"
| "last_weak (Star r) = last_weak r"
| "last_weak Bol = True"
| "last_weak Eol = True"
| "last_weak WordB = True"
| "last_weak (NotAhead r) = True"

text \<open>Every match consumes a last character, and it is no white space.\<close>

primrec last_ns :: "regex \<Rightarrow> bool" where
  "last_ns (Atom a) = atom_ns a"
| "last_ns Eps = False"
| "last_ns (Seq r1 r2) = (last_ns r2 \<or> (last_weak r2 \<and> last_ns r1))"
| "last_ns (Alt r1 r2) = (last_ns r1 \<and> last_ns r2)"
| "last_ns (Star r) = False"
| "last_ns Bol = False"
| "last_ns Eol = False"
| "last_ns WordB = False"
| "last_ns (NotAhead r) = False"

text \<open>No \<open>^\<close>, \<open>$\<close> or look-ahead; no \<open>^\<close>.\<close>

primrec wsafe :: "regex \<Rightarrow> bool" where
  "wsafe (Atom a) = True"
| "wsafe Eps = True"
| "wsafe (Seq r1 r2) = (wsafe r1 \<and> wsafe r2)"
| "wsafe (Alt r1 r2) = (wsafe r1 \<and> wsafe r2)"
| "wsafe (Star r) = wsafe r"
| "wsafe Bol = False"
| "wsafe Eol = False"
| "wsafe WordB = True"
| "wsafe (NotAhead r) = False"

primrec no_bol :: "regex \<Rightarrow> bool" where
  "no_bol (Atom a) = True"
| "no_bol Eps = True"
| "no_bol (Seq r1 r2) = (no_bol r1 \<and> no_bol r2)"
| "no_bol (Alt r1 r2) = (no_bol r1 \<and> no_bol r2)"
| "no_bol (Star r) = no_bol r"
| "no_bol Bol = False"
| "no_bol Eol = True"
| "no_bol WordB = True"
| "no_bol (NotAhead r) = no_bol r"

definition trim_ok :: "regex \<Rightarrow> bool" where
  "trim_ok r = (first_ns r \<and> last_ns r \<and> wsafe r)"

text \<open>The tail \<open>\\s*$\<close>, and the body of a sequence that ends with it.\<close>

definition eol_tail :: regex where
  "eol_tail = Seq (Star (Atom Space)) Eol"

fun split_tail :: "regex \<Rightarrow> regex option" where
  "split_tail (Seq r1 r2) =
     (if r2 = eol_tail then Some r1 else map_option (Seq r1) (split_tail r2))"
| "split_tail r = None"

definition trim_stable :: "regex \<Rightarrow> bool" where
  "trim_stable r =
     (if trim_ok r then True
      else case split_tail r of None \<Rightarrow> False | Some body \<Rightarrow> trim_ok body)"

text \<open>One repetition of the body of a star that consumes input.\<close>

definition step :: "(pos \<Rightarrow> pos list) \<Rightarrow> (pos \<times> pos) set" where
  "step f = {(a, b). b \<in> set (f a) \<and> length (snd b) < length (snd a)}"

text \<open>\<open>q\<close> is \<open>p\<close> after the characters \<open>w\<close> have been consumed.\<close>

definition reaches :: "pos \<Rightarrow> pos \<Rightarrow> bool" where
  "reaches p q =
     (\<exists>w. snd p = w @ snd q \<and> fst q = (if w = [] then fst p else Some (last w)))"

text \<open>\<open>q\<close> lies behind \<open>p\<close>, and the character before \<open>q\<close> is no white space.\<close>

definition ends_ns :: "ucd \<Rightarrow> pos \<Rightarrow> pos \<Rightarrow> bool" where
  "ends_ns U p q =
     (\<exists>c. fst q = Some c \<and> \<not> u_space U c \<and> length (snd q) < length (snd p))"

section \<open>Case variants\<close>





section \<open>Engine: theorems\<close>

lemma rollback_loop_eq:
  "rollback_loop uuid xs acc =
     acc @ map (\<lambda>(k, a). rollback_action (uuid k) a)
             (enumerate (length acc)
                (filter (\<lambda>a. reversible a \<and> truthy (rollback_command a)) xs))"
  by (induction xs arbitrary: acc) simp_all

lemma map_command_rollback:
  "map (\<lambda>(k, a). act_command (rollback_action (uuid k) a))
       (enumerate n (filter (\<lambda>a. reversible a \<and> truthy (rollback_command a)) xs))
   = map (\<lambda>a. the (rollback_command a))
       (filter (\<lambda>a. reversible a \<and> truthy (rollback_command a)) xs)"
  by (induction xs arbitrary: n) (auto simp: rollback_action_def split: option.splits)

text \<open>
  C9. The rollback list of a session is the reverse of its executed actions, filtered to
  those that are reversible and have a non-empty \<open>rollback_command\<close>, each wrapped in a
  new action (with a fresh identifier) whose command is that rollback command.
\<close>

theorem get_rollback_actions_rev_filter:
  "get_rollback_actions uuid s =
     map (\<lambda>(k, a). rollback_action (uuid k) a)
       (enumerate 0
          (rev (filter (\<lambda>a. reversible a \<and> rollback_command a \<noteq> None
                             \<and> rollback_command a \<noteq> Some [])
                  (executed_actions s))))
   \<and> map act_command (get_rollback_actions uuid s) =
       map (\<lambda>a. the (rollback_command a))
         (rev (filter (\<lambda>a. reversible a \<and> rollback_command a \<noteq> None
                            \<and> rollback_command a \<noteq> Some [])
                 (executed_actions s)))"
proof -
  have t: "truthy = (\<lambda>c. c \<noteq> None \<and> c \<noteq> Some [])"
  proof
    fix c :: "string option"
    show "truthy c = (c \<noteq> None \<and> c \<noteq> Some [])" by (cases c) auto
  qed
  have a: "get_rollback_actions uuid s =
     map (\<lambda>(k, a). rollback_action (uuid k) a)
       (enumerate 0 (filter (\<lambda>a. reversible a \<and> truthy (rollback_command a))
                       (rev (executed_actions s))))"
    by (simp add: get_rollback_actions_def rollback_loop_eq)
  have b: "map act_command (get_rollback_actions uuid s) =
     map (\<lambda>a. the (rollback_command a))
       (filter (\<lambda>a. reversible a \<and> truthy (rollback_command a)) (rev (executed_actions s)))"
    using map_command_rollback [of uuid 0 "rev (executed_actions s)"]
    by (simp add: a split_def comp_def)
  show ?thesis using a b by (simp add: t rev_filter)
qed

section \<open>The final state of a session\<close>

text \<open>
  C3 (as stated, refuted). With three iterations, one approved action that fails every
  time and no recovery plan, the session ends in the state \<open>completed\<close> with three
  failed results recorded.
\<close>

theorem completed_with_failed_actions:
  "state (fst (execute failing_engine ''s1'' ''task'' 3)) = COMPLETED
   \<and> map res_success (results (fst (execute failing_engine ''s1'' ''task'' 3)))
       = [False, False, False]"
  by code_simp

text \<open>
  C3 (amended). The final state depends on planning and consent only: \<open>failed\<close> when the
  planner or the consent handler raises, \<open>cancelled\<close> when consent is refused, and
  \<open>completed\<close> in every other case, whatever the results of the actions are.
\<close>

theorem execute_final_state:
  "state (fst (execute env sid task max_iterations)) =
     (case planner env task of
        Inl e \<Rightarrow> FAILED
      | Inr p \<Rightarrow>
          (case get_consent env p of
             Inl e \<Rightarrow> FAILED
           | Inr (approved, approved_ids) \<Rightarrow> if approved then COMPLETED else CANCELLED))"
  by (simp add: execute_def Let_def split: sum.splits prod.splits)

section \<open>The decision of \<open>check_command\<close>\<close>

lemma check_command_cases:
  "check_command U ctl c =
     (if list_ex (\<lambda>p. re_search p U True (strip U c)) ALWAYS_DENIED
      then (False, ''critical'', ''Command matches security-critical deny pattern'')
      else if list_ex (\<lambda>p. re_search p U False (strip U c)) (ctl_blacklist ctl)
      then (False, ''high'', ''Command matches blacklist pattern'')
      else if level (policy ctl) = WHITELIST
      then (if list_ex (\<lambda>p. re_search p U False (strip U c)) (ctl_whitelist ctl)
            then (True, ''low'', ''Matched whitelist'')
            else (False, ''medium'', ''Command not in whitelist''))
      else if level (policy ctl) = BLACKLIST then (True, ''medium'', ''Not in blacklist'')
      else if list_ex (\<lambda>p. re_match p U False (strip U c)) (ctl_preset_allowed ctl)
      then (True, ''low'', ''Allowed by '' @ level_value (level (policy ctl)) @ '' preset'')
      else (False, ''medium'',
            ''Command not allowed by '' @ level_value (level (policy ctl)) @ '' preset''))"
  unfolding check_command_def Let_def by (rule refl)

lemma check_command_critical:
  "(check_command U ctl c
      = (False, ''critical'', ''Command matches security-critical deny pattern''))
   = list_ex (\<lambda>p. re_search p U True (strip U c)) ALWAYS_DENIED"
proof -
  define d where "d = list_ex (\<lambda>p. re_search p U True (strip U c)) ALWAYS_DENIED"
  define b where "b = list_ex (\<lambda>p. re_search p U False (strip U c)) (ctl_blacklist ctl)"
  define w where "w = list_ex (\<lambda>p. re_search p U False (strip U c)) (ctl_whitelist ctl)"
  define m where
    "m = list_ex (\<lambda>p. re_match p U False (strip U c)) (ctl_preset_allowed ctl)"
  show ?thesis
    unfolding check_command_cases d_def [symmetric] b_def [symmetric] w_def [symmetric]
      m_def [symmetric]
    by (cases d; cases b; cases w; cases m; cases "level (policy ctl) = WHITELIST";
        cases "level (policy ctl) = BLACKLIST"; simp)
qed


lemma default_controller_built: "AccessController default_policy = Some default_controller"
  by (simp add: AccessController_def default_policy_def default_controller_def)

lemma full_access_controller_built:
  "AccessController (default_policy\<lparr>level := FULL_ACCESS\<rparr>) = Some full_access_controller"
  by (simp add: AccessController_def default_policy_def full_access_controller_def)



section \<open>The daemon's time-out\<close>





section \<open>The daemon's answer to a time-out\<close>




section \<open>The client's fallback\<close>

lemma ufw_disable_denied:
  "check_command latin1 default_controller (ords ''ufw disable'')
     = (False, ''critical'', ''Command matches security-critical deny pattern'')"
  by code_simp

text \<open>
  C1 (the code at the failing input). The command \<open>ufw disable\<close> matches an always-denied
  pattern and the controller built from the default policy denies it, yet the fallback
  creates the child, waits for it and reports its success; the decision is used for the
  risk label only.
\<close>

theorem execute_direct_runs_denied_command:
  "AccessController default_policy = Some default_controller
   \<and> fst (check_command latin1 default_controller (ords ''ufw disable'')) = False
   \<and> execute_direct latin1 quiet_os (AccessController default_policy) (ords ''ufw disable'')
       ''/tmp'' 60
     = (Some \<lparr> pr_success = True, pr_output = [], pr_error = [], pr_exit_code = 0,
               pr_risk_level = ''critical'', pr_execution_time_ms = 5,
               used_daemon = False \<rparr>,
        [Spawn (ords ''ufw disable'') ''/tmp'', WaitFor 60])"
  by (simp add: execute_direct_def quiet_os_def default_controller_built ufw_disable_denied)

section \<open>Risk levels\<close>

lemma chmod_allowed:
  "check_command latin1 default_controller (ords ''chmod 644 f'')
     = (True, ''low'', ''Allowed by standard preset'')"
  by code_simp

lemma chmod_risk: "get_risk_level latin1 (ords ''chmod 644 f'') = ''high''"
  by code_simp

text \<open>
  C7 (as stated, refuted). For \<open>chmod 644 f\<close> under the default policy the decision
  carries the risk \<open>low\<close>, while the lexical heuristic gives \<open>high\<close>.
\<close>

theorem check_risk_below_heuristic:
  "risk_rank (fst (snd (check_command latin1 default_controller (ords ''chmod 644 f''))))
     < risk_rank (get_risk_level latin1 (ords ''chmod 644 f''))"
  by (simp add: chmod_allowed chmod_risk risk_rank_def)

text \<open>
  C7 (amended). The risk level in the decision of \<open>check_command\<close> is fixed by the step
  that decides: \<open>critical\<close> when an always-denied pattern matches, else \<open>high\<close> when
  a blacklist pattern matches, else \<open>low\<close> when the command is allowed by the white list
  or by a preset, and \<open>medium\<close> otherwise. The lexical heuristic \<open>get_risk_level\<close> takes
  no part in it.
\<close>

theorem check_command_risk:
  "fst (snd (check_command U ctl c)) =
     (if list_ex (\<lambda>p. re_search p U True (strip U c)) ALWAYS_DENIED then ''critical''
      else if list_ex (\<lambda>p. re_search p U False (strip U c)) (ctl_blacklist ctl) then ''high''
      else if fst (check_command U ctl c) \<and> level (policy ctl) \<noteq> BLACKLIST then ''low''
      else ''medium'')"
proof -
  define d where "d = list_ex (\<lambda>p. re_search p U True (strip U c)) ALWAYS_DENIED"
  define b where "b = list_ex (\<lambda>p. re_search p U False (strip U c)) (ctl_blacklist ctl)"
  define w where "w = list_ex (\<lambda>p. re_search p U False (strip U c)) (ctl_whitelist ctl)"
  define m where
    "m = list_ex (\<lambda>p. re_match p U False (strip U c)) (ctl_preset_allowed ctl)"
  show ?thesis
    unfolding check_command_cases d_def [symmetric] b_def [symmetric] w_def [symmetric]
      m_def [symmetric]
    by (cases d; cases b; cases w; cases m; cases "level (policy ctl) = WHITELIST";
        cases "level (policy ctl) = BLACKLIST"; simp)
qed

section \<open>Changes of the policy\<close>








section \<open>Case of the letters\<close>



section \<open>Properties of the Unicode tables\<close>

lemma py_space_ascii: "py_ucd U \<Longrightarrow> c < 128 \<Longrightarrow> u_space U c = ascii_space c"
  by (simp add: py_ucd_def)

lemma py_space_not_word: "py_ucd U \<Longrightarrow> u_space U c \<Longrightarrow> \<not> u_word U c"
  by (simp add: py_ucd_def)

lemma py_digit_word: "py_ucd U \<Longrightarrow> u_digit U c \<Longrightarrow> u_word U c"
  by (simp add: py_ucd_def)

lemma py_digit_not_space: "py_ucd U \<Longrightarrow> u_digit U c \<Longrightarrow> \<not> u_space U c"
  using py_digit_word py_space_not_word by blast

lemma py_ieq_nonletter:
  "py_ucd U \<Longrightarrow> x < 128 \<Longrightarrow> \<not> ascii_letter x \<Longrightarrow> u_ieq U x c = (c = x)"
  by (simp add: py_ucd_def)

lemma py_ieq_letter: "py_ucd U \<Longrightarrow> x < 128 \<Longrightarrow> ascii_letter x \<Longrightarrow> u_ieq U x c \<Longrightarrow> u_word U c"
  by (simp add: py_ucd_def)


lemma py_newline_space: "py_ucd U \<Longrightarrow> u_space U 10"
  using py_space_ascii [of U 10] by (simp add: ascii_space_def)

lemma py_ieq_not_space:
  assumes "py_ucd U" "x < 128" "\<not> ascii_space x" "u_ieq U x c"
  shows "\<not> u_space U c"
proof (cases "ascii_letter x")
  case True
  with assms have "u_word U c" by (simp add: py_ieq_letter)
  with assms(1) show ?thesis using py_space_not_word by blast
next
  case False
  with assms have "c = x" by (simp add: py_ieq_nonletter)
  with assms show ?thesis by (simp add: py_space_ascii)
qed


subsection \<open>The Latin-1 tables\<close>

lemma l1_lower_cases:
  obtains "65 \<le> a" "a \<le> 90" "l1_lower a = a + 32"
  | "192 \<le> a" "a \<le> 214" "l1_lower a = a + 32"
  | "216 \<le> a" "a \<le> 222" "l1_lower a = a + 32"
  | "\<not> (65 \<le> a \<and> a \<le> 90)" "\<not> (192 \<le> a \<and> a \<le> 214)" "\<not> (216 \<le> a \<and> a \<le> 222)"
    "l1_lower a = a"
  unfolding l1_lower_def by (cases "65 \<le> a \<and> a \<le> 90"; cases "192 \<le> a \<and> a \<le> 214";
    cases "216 \<le> a \<and> a \<le> 222") simp_all

lemma l1_upper_cases:
  obtains b where "65 \<le> b" "b \<le> 90" "a = b + 32" "l1_upper a = b"
  | b where "192 \<le> b" "b \<le> 214" "a = b + 32" "l1_upper a = b"
  | b where "216 \<le> b" "b \<le> 222" "a = b + 32" "l1_upper a = b"
  | "\<not> (97 \<le> a \<and> a \<le> 122)" "\<not> (224 \<le> a \<and> a \<le> 246)" "\<not> (248 \<le> a \<and> a \<le> 254)"
    "l1_upper a = a"
proof (cases "(97 \<le> a \<and> a \<le> 122) \<or> (224 \<le> a \<and> a \<le> 246) \<or> (248 \<le> a \<and> a \<le> 254)")
  case True
  then have u: "l1_upper a = a - 32" and a: "a = (a - 32) + 32"
    by (auto simp: l1_upper_def)
  from True have "(65 \<le> a - 32 \<and> a - 32 \<le> 90) \<or> (192 \<le> a - 32 \<and> a - 32 \<le> 214)
      \<or> (216 \<le> a - 32 \<and> a - 32 \<le> 222)"
    by arith
  with u a that(1) [of "a - 32"] that(2) [of "a - 32"] that(3) [of "a - 32"]
  show ?thesis by blast
next
  case False
  then have "l1_upper a = a" by (auto simp: l1_upper_def)
  with False that(4) show ?thesis by blast
qed

lemma l1_lower_lower: "l1_lower (l1_lower a) = l1_lower a"
  by (cases a rule: l1_lower_cases) (simp_all add: l1_lower_def)

lemma l1_lower_upper: "l1_lower (l1_upper a) = l1_lower a"
  by (cases a rule: l1_upper_cases) (simp_all add: l1_lower_def)

lemma l1_space_lower: "l1_space (l1_lower a) = l1_space a"
  by (cases a rule: l1_lower_cases) (simp_all add: l1_space_def)

lemma l1_space_upper: "l1_space (l1_upper a) = l1_space a"
  by (cases a rule: l1_upper_cases) (simp_all add: l1_space_def)

lemma l1_digit_lower: "l1_digit (l1_lower a) = l1_digit a"
  by (cases a rule: l1_lower_cases) (simp_all add: l1_digit_def)

lemma l1_digit_upper: "l1_digit (l1_upper a) = l1_digit a"
  by (cases a rule: l1_upper_cases) (simp_all add: l1_digit_def)

lemma l1_word_lower: "l1_word (l1_lower a) = l1_word a"
  by (cases a rule: l1_lower_cases) (simp_all add: l1_word_def)

lemma l1_word_upper: "l1_word (l1_upper a) = l1_word a"
  by (cases a rule: l1_upper_cases) (simp_all add: l1_word_def)

lemma l1_same_class:
  assumes "l1_lower b = l1_lower a" "l1_space b = l1_space a" "l1_word b = l1_word a"
    "l1_digit b = l1_digit a"
  shows "same_class latin1 a b"
  using assms by (simp add: same_class_def latin1_def list_all_iff)

lemma l1_space_not_word: "l1_space c \<Longrightarrow> \<not> l1_word c"
proof -
  assume "l1_space c"
  then have "c \<in> {9, 10, 11, 12, 13, 28, 29, 30, 31, 32, 133, 160}"
    by (simp add: l1_space_def)
  then show ?thesis by (elim insertE emptyE) (simp_all add: l1_word_def)
qed

lemma l1_ieq_nonletter:
  assumes "x < 128" "\<not> ascii_letter x"
  shows "(l1_lower c = l1_lower x) = (c = x)"
proof -
  from assms have x: "l1_lower x = x" by (simp add: l1_lower_def ascii_letter_def)
  show ?thesis
    using assms unfolding x by (cases c rule: l1_lower_cases) (auto simp: ascii_letter_def)
qed

lemma l1_ieq_letter:
  assumes "x < 128" "ascii_letter x" "l1_lower c = l1_lower x"
  shows "l1_word c"
proof -
  from assms(2) have x: "97 \<le> l1_lower x" "l1_lower x \<le> 122"
    by (auto simp: l1_lower_def ascii_letter_def)
  show ?thesis
  proof (cases c rule: l1_lower_cases)
    case 1
    then show ?thesis by (simp add: l1_word_def)
  next
    case 2
    with x assms(3) show ?thesis by simp
  next
    case 3
    with x assms(3) show ?thesis by simp
  next
    case 4
    with x assms(3) show ?thesis by (simp add: l1_word_def)
  qed
qed

lemma py_ucd_latin1: "py_ucd latin1"
proof -
  have 1: "\<forall>c<128. u_space latin1 c = ascii_space c"
    by (simp add: latin1_def l1_space_def ascii_space_def)
  have 2: "\<forall>c. u_space latin1 c \<longrightarrow> \<not> u_word latin1 c"
    by (simp add: latin1_def l1_space_not_word)
  have 3: "\<forall>c. u_digit latin1 c \<longrightarrow> u_word latin1 c"
    by (simp add: latin1_def l1_digit_def l1_word_def)
  have 4: "\<forall>x<128. \<not> ascii_letter x \<longrightarrow> (\<forall>c. u_ieq latin1 x c = (c = x))"
    by (simp add: latin1_def l1_ieq_nonletter)
  have 5: "\<forall>x<128. ascii_letter x \<longrightarrow> (\<forall>c. u_ieq latin1 x c \<longrightarrow> u_word latin1 c)"
    using l1_ieq_letter by (simp add: latin1_def)
  have 6: "\<forall>a. \<forall>b\<in>set (u_cases latin1 a). same_class latin1 a b"
  proof (intro allI ballI)
    fix a b
    assume "b \<in> set (u_cases latin1 a)"
    then have "b = l1_lower a \<or> b = l1_upper a" by (simp add: latin1_def)
    then show "same_class latin1 a b"
    proof
      assume "b = l1_lower a"
      then show ?thesis
        by (intro l1_same_class)
          (simp_all add: l1_lower_lower l1_space_lower l1_word_lower l1_digit_lower)
    next
      assume "b = l1_upper a"
      then show ?thesis
        by (intro l1_same_class)
          (simp_all add: l1_lower_upper l1_space_upper l1_word_upper l1_digit_upper)
    qed
  qed
  from 1 2 3 4 5 6 show ?thesis unfolding py_ucd_def by blast
qed

section \<open>Matching and \<open>strip\<close>\<close>

subsection \<open>The end positions of a star\<close>

lemma star_ends_sound: "q \<in> set (star_ends f n p) \<Longrightarrow> (p, q) \<in> (step f)\<^sup>*"
proof (induction n arbitrary: p)
  case 0
  then show ?case by simp
next
  case (Suc n)
  show ?case
  proof (cases "q = p")
    case True
    then show ?thesis by simp
  next
    case False
    with Suc.prems obtain a where a: "a \<in> set (f p)" "length (snd a) < length (snd p)"
      and q: "q \<in> set (star_ends f n a)"
      by auto
    from a have "(p, a) \<in> step f" by (simp add: step_def)
    then show ?thesis using Suc.IH [OF q] by (rule converse_rtrancl_into_rtrancl)
  qed
qed

lemma star_ends_self: "p \<in> set (star_ends f n p)"
  by (cases n) simp_all

lemma star_ends_complete:
  "(p, q) \<in> (step f)\<^sup>* \<Longrightarrow> length (snd p) \<le> n \<Longrightarrow> q \<in> set (star_ends f n p)"
proof (induction n arbitrary: p)
  case 0
  from 0(1) show ?case
  proof (cases rule: converse_rtranclE)
    case base
    then show ?thesis by simp
  next
    case (step a)
    with 0(2) show ?thesis by (simp add: step_def)
  qed
next
  case (Suc n)
  from Suc.prems(1) show ?case
  proof (cases rule: converse_rtranclE)
    case base
    then show ?thesis by simp
  next
    case (step a)
    then have a: "a \<in> set (f p)" "length (snd a) < length (snd p)"
      by (simp_all add: step_def)
    with Suc.prems(2) have "length (snd a) \<le> n" by simp
    with step(2) have "q \<in> set (star_ends f n a)" by (rule Suc.IH)
    with a have "q \<in> (\<Union>x\<in>{x \<in> set (f p). length (snd x) < length (snd p)}.
                     set (star_ends f n x))"
      by blast
    then show ?thesis by simp
  qed
qed

lemma set_ends_Star:
  "set (ends (Star r) U ic p) = {q. (p, q) \<in> (step (ends r U ic))\<^sup>*}"
  using star_ends_sound [of _ "ends r U ic" "length (snd p)" p]
    star_ends_complete [of p _ "ends r U ic" "length (snd p)"]
  by auto

lemma set_ends_Seq:
  "set (ends (Seq r1 r2) U ic p) = (\<Union>q\<in>set (ends r1 U ic p). set (ends r2 U ic q))"
  by simp

subsection \<open>What a match consumes\<close>

lemma reaches_refl: "reaches p p"
  by (simp add: reaches_def)

lemma reaches_trans: "reaches p q \<Longrightarrow> reaches q r \<Longrightarrow> reaches p r"
proof -
  assume "reaches p q" "reaches q r"
  then obtain w1 w2 where 1: "snd p = w1 @ snd q" "fst q = (if w1 = [] then fst p else Some (last w1))"
    and 2: "snd q = w2 @ snd r" "fst r = (if w2 = [] then fst q else Some (last w2))"
    by (auto simp: reaches_def)
  have "snd p = (w1 @ w2) @ snd r" using 1 2 by simp
  moreover have "fst r = (if w1 @ w2 = [] then fst p else Some (last (w1 @ w2)))"
    using 1 2 by simp
  ultimately show ?thesis unfolding reaches_def by blast
qed

lemma reaches_length: "reaches p q \<Longrightarrow> length (snd q) \<le> length (snd p)"
  by (auto simp: reaches_def)

lemma rtrancl_reaches:
  assumes "(p, q) \<in> (step f)\<^sup>*" and "\<And>a b. b \<in> set (f a) \<Longrightarrow> reaches a b"
  shows "reaches p q"
  using assms(1)
proof (induction rule: rtrancl_induct)
  case base
  show ?case by (rule reaches_refl)
next
  case (step a b)
  from step(2) have "reaches a b" by (simp add: step_def assms(2))
  with step(3) show ?case by (rule reaches_trans)
qed

lemma ends_reaches: "q \<in> set (ends r U ic p) \<Longrightarrow> reaches p q"
proof (induction r arbitrary: p q)
  case (Atom a)
  then show ?case
    by (cases "snd p") (auto simp: reaches_def split: if_splits)
next
  case (Seq r1 r2)
  then obtain q1 where "q1 \<in> set (ends r1 U ic p)" "q \<in> set (ends r2 U ic q1)" by auto
  with Seq.IH show ?case by (blast intro: reaches_trans)
next
  case (Star r)
  then have "(p, q) \<in> (step (ends r U ic))\<^sup>*" by (simp only: set_ends_Star mem_Collect_eq)
  then show ?case using Star.IH by (rule rtrancl_reaches)
qed (auto simp: reaches_refl split: if_splits)

subsection \<open>First and last characters of a match\<close>

lemma plain_char_not_space:
  assumes "py_ucd U" "plain_char x"
  shows "amatch U ic (Lit x) c \<Longrightarrow> \<not> u_space U c"
proof (cases ic)
  case True
  assume "amatch U ic (Lit x) c"
  with True have "u_ieq U (of_char x) c" by simp
  with assms show ?thesis
    using py_ieq_not_space [of U "of_char x" c] by (simp add: plain_char_def)
next
  case False
  assume "amatch U ic (Lit x) c"
  with False have "c = of_char x" by simp
  with assms show ?thesis by (simp add: plain_char_def py_space_ascii)
qed

lemma ascii_space_le: "ascii_space c \<Longrightarrow> c \<le> 32"
  by (auto simp: ascii_space_def)

lemma atom_ns_sound:
  assumes U: "py_ucd U"
  shows "atom_ns a \<Longrightarrow> amatch U ic a c \<Longrightarrow> \<not> u_space U c"
proof (cases a)
  case (Lit x)
  assume "atom_ns a" "amatch U ic a c"
  with Lit show ?thesis using plain_char_not_space [OF U] by simp
next
  case (Range lo hi)
  assume ns: "atom_ns a" and m: "amatch U ic a c"
  from ns Range have b: "32 < (of_char lo :: nat)" "(of_char hi :: nat) < 128" by simp_all
  show ?thesis
  proof (cases ic)
    case True
    with m Range obtain x where x: "of_char lo \<le> x" "x \<le> of_char hi" "u_ieq U x c"
      by (auto simp: list_ex_iff)
    with b have "x < 128" "\<not> ascii_space x" using ascii_space_le [of x] by auto
    with x(3) show ?thesis by (simp add: py_ieq_not_space [OF U])
  next
    case False
    with m Range have "of_char lo \<le> c" "c \<le> of_char hi" by simp_all
    with b have "c < 128" "\<not> ascii_space c" using ascii_space_le [of c] by auto
    then show ?thesis by (simp add: py_space_ascii [OF U])
  qed
next
  case (OneOf cs)
  assume ns: "atom_ns a" and m: "amatch U ic a c"
  from m OneOf obtain x where x: "x \<in> set cs" "amatch U ic (Lit x) c"
    by (cases ic) (auto simp: list_ex_iff)
  from ns OneOf x(1) have "plain_char x" by (simp add: list_all_iff)
  with x(2) show ?thesis using plain_char_not_space [OF U] by blast
next
  case Digit
  assume "amatch U ic a c"
  with Digit show ?thesis by (simp add: py_digit_not_space [OF U])
qed auto

lemma first_ns_sound:
  assumes U: "py_ucd U"
  shows "first_ns r \<Longrightarrow> q \<in> set (ends r U ic p) \<Longrightarrow> \<exists>c cs. snd p = c # cs \<and> \<not> u_space U c"
proof (induction r arbitrary: p q)
  case (Atom a)
  then show ?case
    by (cases "snd p") (auto split: if_splits dest: atom_ns_sound [OF U])
next
  case (Seq r1 r2)
  from Seq.prems(2) obtain a where "a \<in> set (ends r1 U ic p)" by auto
  moreover from Seq.prems(1) have "first_ns r1" by simp
  ultimately show ?case by (rule Seq.IH(1) [rotated])
next
  case (Alt r1 r2)
  from Alt.prems(2) have "q \<in> set (ends r1 U ic p) \<or> q \<in> set (ends r2 U ic p)" by simp
  moreover from Alt.prems(1) have "first_ns r1" "first_ns r2" by simp_all
  ultimately show ?case using Alt.IH by blast
qed simp_all

lemma ends_ns_trans1: "ends_ns U p a \<Longrightarrow> reaches a q \<Longrightarrow> a = q \<or> ends_ns U a q \<Longrightarrow> ends_ns U p q"
  using reaches_length [of a q] by (auto simp: ends_ns_def)

lemma ends_ns_trans2: "reaches p a \<Longrightarrow> ends_ns U a q \<Longrightarrow> ends_ns U p q"
  using reaches_length [of p a] by (auto simp: ends_ns_def)

lemma last_weak_sound:
  assumes U: "py_ucd U"
  shows "last_weak r \<Longrightarrow> q \<in> set (ends r U ic p) \<Longrightarrow> q = p \<or> ends_ns U p q"
proof (induction r arbitrary: p q)
  case (Atom a)
  then show ?case
    by (cases "snd p") (auto simp: ends_ns_def split: if_splits dest: atom_ns_sound [OF U])
next
  case (Seq r1 r2)
  then obtain a where a: "a \<in> set (ends r1 U ic p)" "q \<in> set (ends r2 U ic a)" by auto
  from Seq a have 1: "a = p \<or> ends_ns U p a" and 2: "q = a \<or> ends_ns U a q" by auto
  from a have "reaches p a" "reaches a q" by (auto dest: ends_reaches)
  with 1 2 show ?case using ends_ns_trans1 ends_ns_trans2 by blast
next
  case (Star r)
  then have "(p, q) \<in> (step (ends r U ic))\<^sup>*" by (simp only: set_ends_Star mem_Collect_eq)
  then show ?case
  proof (induction rule: rtrancl_induct)
    case base
    show ?case by simp
  next
    case (step a b)
    from step(2) have b: "b \<in> set (ends r U ic a)" by (simp add: step_def)
    with Star.IH Star.prems(1) have "b = a \<or> ends_ns U a b" by simp
    moreover from step(1) have "reaches p a"
      by (rule rtrancl_reaches) (rule ends_reaches)
    moreover from b have "reaches a b" by (rule ends_reaches)
    ultimately show ?case using step(3) ends_ns_trans1 ends_ns_trans2 by blast
  qed
next
  case (Alt r1 r2)
  from Alt.prems(2) have "q \<in> set (ends r1 U ic p) \<or> q \<in> set (ends r2 U ic p)" by simp
  moreover from Alt.prems(1) have "last_weak r1" "last_weak r2" by simp_all
  ultimately show ?case using Alt.IH by blast
qed (auto split: if_splits)

lemma last_ns_sound:
  assumes U: "py_ucd U"
  shows "last_ns r \<Longrightarrow> q \<in> set (ends r U ic p) \<Longrightarrow> ends_ns U p q"
proof (induction r arbitrary: p q)
  case (Atom a)
  then show ?case
    by (cases "snd p") (auto simp: ends_ns_def split: if_splits dest: atom_ns_sound [OF U])
next
  case (Seq r1 r2)
  then obtain a where a: "a \<in> set (ends r1 U ic p)" "q \<in> set (ends r2 U ic a)" by auto
  then have r: "reaches p a" "reaches a q" by (auto dest: ends_reaches)
  show ?case
  proof (cases "last_ns r2")
    case True
    with Seq.IH(2) a(2) have "ends_ns U a q" by simp
    with r(1) show ?thesis by (rule ends_ns_trans2)
  next
    case False
    with Seq.prems(1) have w: "last_weak r2" "last_ns r1" by auto
    from w(2) a(1) have "ends_ns U p a" by (rule Seq.IH(1))
    moreover from w(1) a(2) have "q = a \<or> ends_ns U a q" by (rule last_weak_sound [OF U])
    ultimately show ?thesis using r(2) ends_ns_trans1 by blast
  qed
next
  case (Alt r1 r2)
  from Alt.prems(2) have "q \<in> set (ends r1 U ic p) \<or> q \<in> set (ends r2 U ic p)" by simp
  moreover from Alt.prems(1) have "last_ns r1" "last_ns r2" by simp_all
  ultimately show ?case using Alt.IH by blast
qed simp_all

subsection \<open>The context to the right of a match\<close>

lemma word_after_post:
  "post = [] \<or> \<not> u_word U (hd post) \<Longrightarrow> word_after U (b, u @ post) = word_after U (b, u)"
  by (cases u; cases post) (auto simp: word_after_def)

lemma chain_drop_post:
  assumes f: "\<And>b u b2 v. (b2, v @ post) \<in> set (f (b, u @ post)) \<Longrightarrow> (b2, v) \<in> set (f (b, u))"
    and reach: "\<And>a b. b \<in> set (f a) \<Longrightarrow> reaches a b"
    and chain: "(p, q) \<in> (step f)\<^sup>*"
  shows "p = (b, u @ post) \<Longrightarrow> q = (b2, v @ post) \<Longrightarrow> ((b, u), (b2, v)) \<in> (step f)\<^sup>*"
  using chain
proof (induction arbitrary: b2 v rule: rtrancl_induct)
  case base
  then show ?case by simp
next
  case (step y z)
  from step(2) have z: "z \<in> set (f y)" "length (snd z) < length (snd y)"
    by (simp_all add: step_def)
  from z(1) have "reaches y z" by (rule reach)
  with step(5) obtain w where w: "snd y = (w @ v) @ post" by (auto simp: reaches_def)
  then have y: "y = (fst y, (w @ v) @ post)" by (metis prod.collapse)
  from step(4) y have 1: "((b, u), (fst y, w @ v)) \<in> (step f)\<^sup>*" by (rule step(3))
  from z(1) y step(5) have "(b2, v @ post) \<in> set (f (fst y, (w @ v) @ post))" by simp
  then have 2: "(b2, v) \<in> set (f (fst y, w @ v))" by (rule f)
  from z(2) w step(5) have "length v < length (w @ v)" by simp
  with 2 have "((fst y, w @ v), (b2, v)) \<in> step f" by (simp add: step_def)
  with 1 show ?case by (rule rtrancl_into_rtrancl)
qed

lemma ends_drop_post:
  assumes post: "post = [] \<or> \<not> u_word U (hd post)"
  shows "wsafe r \<Longrightarrow> (b2, v @ post) \<in> set (ends r U ic (b, u @ post))
           \<Longrightarrow> (b2, v) \<in> set (ends r U ic (b, u))"
proof (induction r arbitrary: b u b2 v)
  case (Atom a)
  from Atom.prems(2) obtain c where c: "u @ post = c # v @ post" "amatch U ic a c" "b2 = Some c"
    by (cases "u @ post") (auto split: if_splits)
  from c(1) have "u @ post = (c # v) @ post" by simp
  then have "u = c # v" by (simp only: append_same_eq)
  with c show ?case by simp
next
  case Eps
  then show ?case by simp
next
  case (Seq r1 r2)
  from Seq.prems(2) obtain q1 where q1: "q1 \<in> set (ends r1 U ic (b, u @ post))"
    and q: "(b2, v @ post) \<in> set (ends r2 U ic q1)"
    by auto
  from q have "reaches q1 (b2, v @ post)" by (rule ends_reaches)
  then obtain w where w: "snd q1 = (w @ v) @ post" by (auto simp: reaches_def)
  then have e: "q1 = (fst q1, (w @ v) @ post)" by (metis prod.collapse)
  from Seq.prems(1) have s: "wsafe r1" "wsafe r2" by simp_all
  from q1 e have "(fst q1, (w @ v) @ post) \<in> set (ends r1 U ic (b, u @ post))" by simp
  with s(1) have 1: "(fst q1, w @ v) \<in> set (ends r1 U ic (b, u))" by (rule Seq.IH(1))
  from q e have "(b2, v @ post) \<in> set (ends r2 U ic (fst q1, (w @ v) @ post))" by simp
  with s(2) have 2: "(b2, v) \<in> set (ends r2 U ic (fst q1, w @ v))" by (rule Seq.IH(2))
  from 1 2 show ?case by (simp only: set_ends_Seq) blast
next
  case (Alt r1 r2)
  from Alt.prems(2) have "(b2, v @ post) \<in> set (ends r1 U ic (b, u @ post))
      \<or> (b2, v @ post) \<in> set (ends r2 U ic (b, u @ post))"
    by simp
  moreover from Alt.prems(1) have "wsafe r1" "wsafe r2" by simp_all
  ultimately have "(b2, v) \<in> set (ends r1 U ic (b, u)) \<or> (b2, v) \<in> set (ends r2 U ic (b, u))"
    using Alt.IH by blast
  then show ?case by simp
next
  case (Star r)
  from Star.prems(1) have s: "wsafe r" by simp
  from Star.prems(2) have c: "((b, u @ post), (b2, v @ post)) \<in> (step (ends r U ic))\<^sup>*"
    by (simp only: set_ends_Star mem_Collect_eq)
  have "((b, u), (b2, v)) \<in> (step (ends r U ic))\<^sup>*"
  proof (rule chain_drop_post [where f = "ends r U ic" and post = post
        and p = "(b, u @ post)" and q = "(b2, v @ post)"])
    show "(b2, v) \<in> set (ends r U ic (b, u))"
      if "(b2, v @ post) \<in> set (ends r U ic (b, u @ post))" for b u b2 v
      using s that by (rule Star.IH)
    show "reaches a b" if "b \<in> set (ends r U ic a)" for a b
      using that by (rule ends_reaches)
    show "((b, u @ post), (b2, v @ post)) \<in> (step (ends r U ic))\<^sup>*" by (rule c)
  qed simp_all
  then show ?case by (simp only: set_ends_Star mem_Collect_eq)
next
  case WordB
  then show ?case using word_after_post [OF post, of b u]
    by (auto simp: word_before_def split: if_splits)
qed simp_all

subsection \<open>The context to the left of a match\<close>

lemma word_before_fst: "word_before U (b, u) = word_before U (b, v)"
  by (simp add: word_before_def)

lemma chain_left_context:
  assumes f: "\<And>b b' u q. word_before U (b, u) = word_before U (b', u) \<Longrightarrow> q \<in> set (f (b, u))
      \<Longrightarrow> \<exists>q'. q' \<in> set (f (b', u)) \<and> snd q' = snd q \<and> word_before U q' = word_before U q"
    and chain: "(p, q) \<in> (step f)\<^sup>*"
  shows "snd p' = snd p \<Longrightarrow> word_before U p' = word_before U p
     \<Longrightarrow> \<exists>q'. (p', q') \<in> (step f)\<^sup>* \<and> snd q' = snd q \<and> word_before U q' = word_before U q"
  using chain
proof (induction rule: rtrancl_induct)
  case base
  then show ?case by blast
next
  case (step y z)
  from step(3) [OF step(4) step(5)] obtain y' where y': "(p', y') \<in> (step f)\<^sup>*"
    "snd y' = snd y" "word_before U y' = word_before U y"
    by blast
  from step(2) have z: "z \<in> set (f (fst y, snd y))" "length (snd z) < length (snd y)"
    by (simp_all add: step_def)
  from y'(3) have "word_before U (fst y, snd y) = word_before U (fst y', snd y)"
    by (simp add: word_before_def)
  from f [OF this z(1)] obtain z' where z': "z' \<in> set (f (fst y', snd y))" "snd z' = snd z"
    "word_before U z' = word_before U z"
    by blast
  from z'(1) y'(2) have "z' \<in> set (f y')" by (metis prod.collapse)
  with z(2) z'(2) y'(2) have "(y', z') \<in> step f" by (simp add: step_def)
  with y'(1) have "(p', z') \<in> (step f)\<^sup>*" by (rule rtrancl_into_rtrancl)
  with z'(2,3) show ?case by blast
qed

lemma ends_left_context:
  "no_bol r \<Longrightarrow> word_before U (b, u) = word_before U (b', u) \<Longrightarrow> q \<in> set (ends r U ic (b, u))
     \<Longrightarrow> \<exists>q'. q' \<in> set (ends r U ic (b', u)) \<and> snd q' = snd q \<and> word_before U q' = word_before U q"
proof (induction r arbitrary: b b' u q)
  case (Atom a)
  then show ?case by (cases u) (auto split: if_splits)
next
  case Eps
  then show ?case by (auto simp: word_before_def)
next
  case (Seq r1 r2)
  from Seq.prems(1) have s: "no_bol r1" "no_bol r2" by simp_all
  from Seq.prems(3) obtain a where a: "a \<in> set (ends r1 U ic (b, u))"
    and q: "q \<in> set (ends r2 U ic (fst a, snd a))"
    by auto
  from Seq.IH(1) [OF s(1) Seq.prems(2) a] obtain a' where a': "a' \<in> set (ends r1 U ic (b', u))"
    "snd a' = snd a" "word_before U a' = word_before U a"
    by blast
  from a'(3) have "word_before U (fst a, snd a) = word_before U (fst a', snd a)"
    by (simp add: word_before_def)
  from Seq.IH(2) [OF s(2) this q] obtain q' where q': "q' \<in> set (ends r2 U ic (fst a', snd a))"
    "snd q' = snd q" "word_before U q' = word_before U q"
    by blast
  from q'(1) a'(2) have "q' \<in> set (ends r2 U ic a')" by (metis prod.collapse)
  with a'(1) have "q' \<in> set (ends (Seq r1 r2) U ic (b', u))" by (simp only: set_ends_Seq) blast
  with q'(2,3) show ?case by blast
next
  case (Alt r1 r2)
  from Alt.prems(1) have s: "no_bol r1" "no_bol r2" by simp_all
  from Alt.prems(3) have "q \<in> set (ends r1 U ic (b, u)) \<or> q \<in> set (ends r2 U ic (b, u))" by simp
  then show ?case
  proof
    assume "q \<in> set (ends r1 U ic (b, u))"
    from Alt.IH(1) [OF s(1) Alt.prems(2) this] show ?thesis by auto
  next
    assume "q \<in> set (ends r2 U ic (b, u))"
    from Alt.IH(2) [OF s(2) Alt.prems(2) this] show ?thesis by auto
  qed
next
  case (Star r)
  from Star.prems(1) have s: "no_bol r" by simp
  from Star.prems(3) have "((b, u), q) \<in> (step (ends r U ic))\<^sup>*"
    by (simp only: set_ends_Star mem_Collect_eq)
  with Star.IH [OF s] have "\<exists>q'. ((b', u), q') \<in> (step (ends r U ic))\<^sup>* \<and> snd q' = snd q
      \<and> word_before U q' = word_before U q"
    using Star.prems(2)
    by (intro chain_left_context [where f = "ends r U ic" and p = "(b, u)"]) auto
  then show ?case by (simp only: set_ends_Star mem_Collect_eq)
next
  case Bol
  then show ?case by simp
next
  case Eol
  then show ?case by (auto simp: word_before_def split: if_splits)
next
  case WordB
  then show ?case by (auto simp: word_before_def word_after_def split: if_splits)
next
  case (NotAhead r)
  from NotAhead.prems(1) have s: "no_bol r" by simp
  from NotAhead.prems(3) have q: "q = (b, u)" "ends r U ic (b, u) = []"
    by (auto split: if_splits)
  have "ends r U ic (b', u) = []"
  proof (rule ccontr)
    assume "ends r U ic (b', u) \<noteq> []"
    then obtain z where "z \<in> set (ends r U ic (b', u))" by (cases "ends r U ic (b', u)") auto
    from NotAhead.IH [OF s NotAhead.prems(2) [symmetric] this] q(2) show False by simp
  qed
  with q(1) NotAhead.prems(2) show ?case by (auto simp: word_before_def)
qed

subsection \<open>Searching\<close>

lemma search_from_iff:
  "search_from r U ic b s =
     (\<exists>x y. s = x @ y \<and> ends r U ic (if x = [] then b else Some (last x), y) \<noteq> [])"
proof (induction s arbitrary: b)
  case Nil
  show ?case by simp
next
  case (Cons c s)
  show ?case (is "?L = ?R")
  proof
    assume ?L
    then consider "ends r U ic (b, c # s) \<noteq> []" | "search_from r U ic (Some c) s"
      by (auto split: if_splits)
    then show ?R
    proof cases
      case 1
      then have "c # s = [] @ c # s \<and> ends r U ic (if [] = [] then b else Some (last []), c # s) \<noteq> []"
        by simp
      then show ?thesis by blast
    next
      case 2
      then obtain x y where xy: "s = x @ y"
        "ends r U ic (if x = [] then Some c else Some (last x), y) \<noteq> []"
        unfolding Cons.IH by blast
      then have "c # s = (c # x) @ y
          \<and> ends r U ic (if c # x = [] then b else Some (last (c # x)), y) \<noteq> []"
        by (cases "x = []") simp_all
      then show ?thesis by blast
    qed
  next
    assume ?R
    then obtain x y where xy: "c # s = x @ y"
      "ends r U ic (if x = [] then b else Some (last x), y) \<noteq> []"
      by blast
    show ?L
    proof (cases x)
      case Nil
      with xy have "ends r U ic (b, c # s) \<noteq> []" by simp
      then show ?thesis by simp
    next
      case (Cons d x')
      with xy have "s = x' @ y" "ends r U ic (if x' = [] then Some c else Some (last x'), y) \<noteq> []"
        by (auto split: if_splits)
      then have "search_from r U ic (Some c) s" unfolding Cons.IH by blast
      then show ?thesis by simp
    qed
  qed
qed

lemma re_search_iff:
  "re_search r U ic s =
     (\<exists>x y. s = x @ y \<and> set (ends r U ic (if x = [] then None else Some (last x), y)) \<noteq> {})"
  by (simp add: re_search_def search_from_iff)

lemma re_search_cong:
  "(\<And>p. set (ends r U ic p) = set (ends r' U ic p)) \<Longrightarrow> re_search r U ic s = re_search r' U ic s"
  by (simp add: re_search_iff)

subsection \<open>White space around the subject\<close>

lemma wsafe_no_bol: "wsafe r \<Longrightarrow> no_bol r"
  by (induction r) simp_all

lemma nonempty_ex: "A \<noteq> {} \<Longrightarrow> \<exists>q. q \<in> A"
  by blast

lemma in_nonempty: "q \<in> A \<Longrightarrow> A \<noteq> {}"
  by blast

lemma search_drop_pre:
  assumes U: "py_ucd U" and r: "first_ns r" "no_bol r" and pre: "\<forall>c\<in>set pre. u_space U c"
    and s: "re_search r U ic (pre @ u)"
  shows "re_search r U ic u"
proof -
  from s obtain x y where xy: "pre @ u = x @ y"
    and ne: "set (ends r U ic (if x = [] then None else Some (last x), y)) \<noteq> {}"
    unfolding re_search_iff by blast
  from nonempty_ex [OF ne] obtain q where q: "q \<in> set (ends r U ic (if x = [] then None else Some (last x), y))" ..
  from first_ns_sound [OF U r(1) q] obtain c cs where y: "y = c # cs" "\<not> u_space U c" by auto
  from xy obtain z where "(pre = x @ z \<and> z @ u = y) \<or> (pre @ z = x \<and> u = z @ y)"
    unfolding append_eq_append_conv2 by blast
  then consider "pre = x @ z" "z @ u = y" | "pre @ z = x" "u = z @ y" "z \<noteq> []"
    by (cases "z = []") auto
  then show ?thesis
  proof cases
    case 1
    have "z = []"
    proof (rule ccontr)
      assume "z \<noteq> []"
      with 1(2) y(1) have "c \<in> set z" by (cases z) auto
      with 1(1) pre y(2) show False by auto
    qed
    with 1 have e: "x = pre" "y = u" by simp_all
    have "word_before U (if x = [] then None else Some (last x), u) = word_before U (None, u)"
      using pre e(1) by (auto simp: word_before_def dest: py_space_not_word [OF U])
    from ends_left_context [OF r(2) this] q e(2)
    obtain q' where "q' \<in> set (ends r U ic (None, u))" by blast
    then have "u = [] @ u \<and> set (ends r U ic (if [] = [] then None else Some (last []), u)) \<noteq> {}"
      by auto
    then show ?thesis unfolding re_search_iff by blast
  next
    case 2
    then have "last x = last z" by auto
    with 2 q have "u = z @ y \<and> set (ends r U ic (if z = [] then None else Some (last z), y)) \<noteq> {}"
      by auto
    then show ?thesis unfolding re_search_iff by blast
  qed
qed

lemma append_space_suffix:
  assumes "a @ v = u @ post" and "a \<noteq> []" and "\<not> u_space U (last a)"
    and "\<forall>c\<in>set post. u_space U c"
  shows "\<exists>v'. v = v' @ post \<and> u = a @ v'"
proof -
  from assms(1) obtain z where "(a = u @ z \<and> z @ v = post) \<or> (a @ z = u \<and> v = z @ post)"
    unfolding append_eq_append_conv2 by blast
  then consider "a = u @ z" "z @ v = post" | "a @ z = u" "v = z @ post"
    by blast
  then show ?thesis
  proof cases
    case 1
    have "z = []"
    proof (rule ccontr)
      assume z: "z \<noteq> []"
      with 1(1) have "last a = last z" by simp
      moreover from z have "last z \<in> set z" by simp
      ultimately have "last a \<in> set post" using 1(2) by auto
      with assms(3,4) show False by simp
    qed
    with 1 show ?thesis by simp
  next
    case 2
    then show ?thesis by auto
  qed
qed

lemma match_before_post:
  assumes U: "py_ucd U" and r: "last_ns r" and post: "\<forall>c\<in>set post. u_space U c"
    and xy: "u @ post = x @ y" and q: "q \<in> set (ends r U ic (b, y))"
  shows "\<exists>w v d. y = (w @ v) @ post \<and> u = x @ w @ v \<and> q = (Some d, v @ post)
           \<and> w \<noteq> [] \<and> \<not> u_space U (last w)"
proof -
  from last_ns_sound [OF U r q] obtain d where d: "fst q = Some d" "\<not> u_space U d"
    "length (snd q) < length y"
    by (auto simp: ends_ns_def)
  from ends_reaches [OF q] obtain w where w: "y = w @ snd q"
    "fst q = (if w = [] then b else Some (last w))"
    by (auto simp: reaches_def)
  from w(1) d(3) have ne: "w \<noteq> []" by auto
  with w(2) d(1) have lw: "last w = d" by simp
  from xy w(1) have "(x @ w) @ snd q = u @ post" by simp
  moreover from ne have "x @ w \<noteq> []" by simp
  moreover from ne lw d(2) have "\<not> u_space U (last (x @ w))" by simp
  ultimately obtain v where v: "snd q = v @ post" "u = (x @ w) @ v"
    using post append_space_suffix by blast
  from d(1) v(1) have "q = (Some d, v @ post)" by (metis prod.collapse)
  with w(1) v ne lw d(2) show ?thesis by auto
qed

lemma spaces_head_not_word:
  "py_ucd U \<Longrightarrow> \<forall>c\<in>set post. u_space U c \<Longrightarrow> post = [] \<or> \<not> u_word U (hd post)"
  by (cases post) (auto dest: py_space_not_word)

lemma search_drop_post:
  assumes U: "py_ucd U" and r: "last_ns r" "wsafe r" and post: "\<forall>c\<in>set post. u_space U c"
    and s: "re_search r U ic (u @ post)"
  shows "re_search r U ic u"
proof -
  from s obtain x y where xy: "u @ post = x @ y"
    and ne: "set (ends r U ic (if x = [] then None else Some (last x), y)) \<noteq> {}"
    unfolding re_search_iff by blast
  from nonempty_ex [OF ne] obtain q where q: "q \<in> set (ends r U ic (if x = [] then None else Some (last x), y))" ..
  from match_before_post [OF U r(1) post xy q] obtain w v d where
    m: "y = (w @ v) @ post" "u = x @ w @ v" "q = (Some d, v @ post)"
    by blast
  from q m(1,3) have "(Some d, v @ post)
      \<in> set (ends r U ic (if x = [] then None else Some (last x), (w @ v) @ post))"
    by simp
  with r(2) have "(Some d, v) \<in> set (ends r U ic (if x = [] then None else Some (last x), w @ v))"
    by (rule ends_drop_post [OF spaces_head_not_word [OF U post]])
  with m(2) have "u = x @ (w @ v)
      \<and> set (ends r U ic (if x = [] then None else Some (last x), w @ v)) \<noteq> {}"
    by auto
  then show ?thesis unfolding re_search_iff by blast
qed

subsection \<open>Patterns that end with \<open>\\s*$\<close>\<close>

lemma space_chain:
  "(p, q) \<in> (step (ends (Atom Space) U ic))\<^sup>* \<Longrightarrow> \<forall>c\<in>set (snd q). u_space U c
     \<Longrightarrow> \<forall>c\<in>set (snd p). u_space U c"
proof (induction rule: converse_rtrancl_induct)
  case base
  then show ?case .
next
  case (step y z)
  from step(1) have "z \<in> set (ends (Atom Space) U ic y)" by (simp add: step_def)
  then obtain c where "snd y = c # snd z" "u_space U c"
    by (cases "snd y") (auto split: if_splits)
  with step(3) [OF step(4)] show ?case by simp
qed

lemma eol_tail_spaces:
  assumes U: "py_ucd U" and e: "q \<in> set (ends eol_tail U ic p)"
  shows "\<forall>c\<in>set (snd p). u_space U c"
proof -
  from e obtain a where a: "a \<in> set (ends (Star (Atom Space)) U ic p)"
    and q: "q \<in> set (ends Eol U ic a)"
    unfolding eol_tail_def set_ends_Seq by blast
  from q have "\<forall>c\<in>set (snd a). u_space U c"
    by (auto simp: py_newline_space [OF U] split: if_splits)
  moreover from a have "(p, a) \<in> (step (ends (Atom Space) U ic))\<^sup>*"
    by (simp only: set_ends_Star mem_Collect_eq)
  ultimately show ?thesis by (rule space_chain [rotated])
qed

lemma eol_tail_at_end: "(b, []) \<in> set (ends eol_tail U ic (b, []))"
  by (simp add: eol_tail_def)

lemma search_tail_drop_post:
  assumes U: "py_ucd U" and r: "last_ns body" "wsafe body" and post: "\<forall>c\<in>set post. u_space U c"
    and t: "t = [] \<or> \<not> u_space U (last t)"
    and s: "re_search (Seq body eol_tail) U ic (t @ post)"
  shows "re_search (Seq body eol_tail) U ic t"
proof -
  from s obtain x y where xy: "t @ post = x @ y"
    and ne: "set (ends (Seq body eol_tail) U ic (if x = [] then None else Some (last x), y)) \<noteq> {}"
    unfolding re_search_iff by blast
  from nonempty_ex [OF ne] obtain q where q: "q \<in> set (ends (Seq body eol_tail) U ic (if x = [] then None else Some (last x), y))" ..
  from q obtain a where a: "a \<in> set (ends body U ic (if x = [] then None else Some (last x), y))"
    and qa: "q \<in> set (ends eol_tail U ic a)"
    unfolding set_ends_Seq by blast
  from match_before_post [OF U r(1) post xy a] obtain w v d where
    m: "y = (w @ v) @ post" "t = x @ w @ v" "a = (Some d, v @ post)"
    by blast
  from eol_tail_spaces [OF U qa] m(3) have sp: "\<forall>c\<in>set v. u_space U c" by simp
  have v: "v = []"
  proof (rule ccontr)
    assume ne: "v \<noteq> []"
    with m(2) have "t \<noteq> []" "last t = last v" by simp_all
    moreover from ne have "last v \<in> set v" by simp
    ultimately show False using t sp by auto
  qed
  from a m(1,3) v have "(Some d, [] @ post)
      \<in> set (ends body U ic (if x = [] then None else Some (last x), w @ post))"
    by simp
  with r(2) have "(Some d, [])
      \<in> set (ends body U ic (if x = [] then None else Some (last x), w))"
    by (rule ends_drop_post [OF spaces_head_not_word [OF U post]])
  with eol_tail_at_end [of "Some d" U ic]
  have "(Some d, []) \<in> set (ends (Seq body eol_tail) U ic
          (if x = [] then None else Some (last x), w))"
    unfolding set_ends_Seq by blast
  then have "set (ends (Seq body eol_tail) U ic (if x = [] then None else Some (last x), w))
      \<noteq> {}"
    by (rule in_nonempty)
  moreover from m(2) v have "t = x @ w" by simp
  ultimately have "t = x @ w
      \<and> set (ends (Seq body eol_tail) U ic (if x = [] then None else Some (last x), w)) \<noteq> {}"
    by blast
  then show ?thesis unfolding re_search_iff by blast
qed

lemma split_tail_ends:
  "split_tail r = Some body \<Longrightarrow> set (ends r U ic p) = set (ends (Seq body eol_tail) U ic p)"
proof (induction r arbitrary: body p)
  case (Seq r1 r2)
  show ?case
  proof (cases "r2 = eol_tail")
    case True
    with Seq.prems show ?thesis by simp
  next
    case False
    with Seq.prems obtain b2 where b2: "split_tail r2 = Some b2" "body = Seq r1 b2" by auto
    have "set (ends r2 U ic q) = set (ends (Seq b2 eol_tail) U ic q)" for q
      using b2(1) by (rule Seq.IH(2))
    with b2(2) show ?thesis by auto
  qed
qed simp_all

subsection \<open>Stripping the subject\<close>

lemma strip_decomp:
  "\<exists>pre post. s = pre @ strip U s @ post \<and> (\<forall>c\<in>set pre. u_space U c)
      \<and> (\<forall>c\<in>set post. u_space U c) \<and> (strip U s = [] \<or> \<not> u_space U (last (strip U s)))"
proof -
  define d where "d = dropWhile (u_space U) s"
  define pre where "pre = takeWhile (u_space U) s"
  define post where "post = rev (takeWhile (u_space U) (rev d))"
  have 1: "s = pre @ d" by (simp add: pre_def d_def)
  have 2: "d = strip U s @ post"
    unfolding strip_def post_def d_def [symmetric]
    by (metis rev_append rev_rev_ident takeWhile_dropWhile_id)
  have 3: "\<forall>c\<in>set pre. u_space U c" by (auto simp: pre_def dest: set_takeWhileD)
  have 4: "\<forall>c\<in>set post. u_space U c" by (auto simp: post_def dest: set_takeWhileD)
  have 5: "strip U s = [] \<or> \<not> u_space U (last (strip U s))"
  proof (cases "dropWhile (u_space U) (rev d) = []")
    case True
    then show ?thesis by (simp add: strip_def d_def)
  next
    case False
    then have "\<not> u_space U (hd (dropWhile (u_space U) (rev d)))" by (rule hd_dropWhile)
    with False show ?thesis by (simp add: strip_def d_def last_rev)
  qed
  from 1 2 3 4 5 show ?thesis by blast
qed

lemma trim_ok_strip:
  assumes U: "py_ucd U" and t: "trim_ok r" and s: "re_search r U ic s"
  shows "re_search r U ic (strip U s)"
proof -
  from strip_decomp [of s] obtain pre post where d: "s = pre @ strip U s @ post"
    "\<forall>c\<in>set pre. u_space U c" "\<forall>c\<in>set post. u_space U c"
    by blast
  from t have r: "first_ns r" "last_ns r" "wsafe r" by (simp_all add: trim_ok_def)
  from s d(1) have "re_search r U ic (pre @ strip U s @ post)" by simp
  with U r(1) wsafe_no_bol [OF r(3)] d(2) have "re_search r U ic (strip U s @ post)"
    by (rule search_drop_pre)
  with U r(2,3) d(3) show ?thesis by (rule search_drop_post)
qed

lemma trim_tail_strip:
  assumes U: "py_ucd U" and sp: "split_tail r = Some body" and t: "trim_ok body"
    and s: "re_search r U ic s"
  shows "re_search r U ic (strip U s)"
proof -
  from strip_decomp [of s] obtain pre post where d: "s = pre @ strip U s @ post"
    "\<forall>c\<in>set pre. u_space U c" "\<forall>c\<in>set post. u_space U c"
    "strip U s = [] \<or> \<not> u_space U (last (strip U s))"
    by blast
  from t have r: "first_ns body" "last_ns body" "wsafe body" by (simp_all add: trim_ok_def)
  have e: "re_search r U ic x = re_search (Seq body eol_tail) U ic x" for x
    using split_tail_ends [OF sp] by (rule re_search_cong)
  from s d(1) have "re_search (Seq body eol_tail) U ic (pre @ strip U s @ post)"
    by (simp add: e)
  moreover from r(1) have "first_ns (Seq body eol_tail)" by simp
  moreover from r(3) have "no_bol (Seq body eol_tail)"
    by (simp add: eol_tail_def wsafe_no_bol)
  ultimately have "re_search (Seq body eol_tail) U ic (strip U s @ post)"
    using d(2) search_drop_pre [OF U] by blast
  with U r(2,3) d(3,4) have "re_search (Seq body eol_tail) U ic (strip U s)"
    by (rule search_tail_drop_post)
  then show ?thesis by (simp add: e)
qed

lemma trim_stable_strip:
  "py_ucd U \<Longrightarrow> trim_stable r \<Longrightarrow> re_search r U ic s \<Longrightarrow> re_search r U ic (strip U s)"
  by (auto simp: trim_stable_def split: if_splits option.splits
      intro: trim_ok_strip trim_tail_strip)

lemma always_denied_trim_stable: "list_all trim_stable ALWAYS_DENIED"
  by code_simp

lemma always_denied_strip:
  assumes U: "py_ucd U" and d: "list_ex (\<lambda>p. re_search p U True c) ALWAYS_DENIED"
  shows "list_ex (\<lambda>p. re_search p U True (strip U c)) ALWAYS_DENIED"
proof -
  from d obtain p where p: "p \<in> set ALWAYS_DENIED" "re_search p U True c"
    by (auto simp: list_ex_iff)
  from p(1) always_denied_trim_stable have "trim_stable p" by (simp add: list_all_iff)
  with p(2) have "re_search p U True (strip U c)" by (rule trim_stable_strip [OF U, rotated])
  with p(1) show ?thesis by (auto simp: list_ex_iff)
qed





section \<open>Matching without regard to case\<close>







subsection \<open>Positions with characters of the same classes\<close>















section \<open>The always-denied step\<close>

text \<open>
  C2. Whatever the controller is (level, white list, black list), a command that some
  always-denied pattern matches is denied with the risk level \<open>critical\<close> and the
  reason that names the security-critical deny pattern. This holds for every command,
  a string of any code points, under Unicode tables with the properties \<open>py_ucd\<close>.
\<close>

theorem always_denied_overrides_policy:
  assumes "py_ucd U" and "list_ex (\<lambda>p. re_search p U True c) ALWAYS_DENIED"
  shows "check_command U ctl c
     = (False, ''critical'', ''Command matches security-critical deny pattern'')"
  using always_denied_strip [OF assms] by (simp only: check_command_critical)

lemma ufw_nbsp_matches: "list_ex (\<lambda>p. re_search p latin1 True ufw_nbsp) ALWAYS_DENIED"
  by code_simp

theorem always_denied_overrides_policy_witness:
  "py_ucd latin1
   \<and> AccessController (default_policy\<lparr>level := FULL_ACCESS\<rparr>) = Some full_access_controller
   \<and> list_ex (\<lambda>p. re_search p latin1 True ufw_nbsp) ALWAYS_DENIED
   \<and> check_command latin1 full_access_controller ufw_nbsp
       = (False, ''critical'', ''Command matches security-critical deny pattern'')"
  using py_ucd_latin1 ufw_nbsp_matches full_access_controller_built
    always_denied_overrides_policy [OF py_ucd_latin1 ufw_nbsp_matches]
  by blast

section \<open>Self-invocation\<close>

lemma self_invoke_always_denied: "set self_invoke_patterns \<subseteq> set ALWAYS_DENIED"
  by (simp add: self_invoke_patterns_def ALWAYS_DENIED_def)

text \<open>
  C10. A command that \<open>is_self_invocation\<close> recognises is denied by \<open>check_command\<close>
  with the risk level \<open>critical\<close>, under every controller: the four self-invocation
  patterns are always-denied patterns, and the always-denied step comes first.
\<close>

theorem self_invocation_denied:
  assumes "py_ucd U" and "is_self_invocation U c"
  shows "check_command U ctl c
     = (False, ''critical'', ''Command matches security-critical deny pattern'')"
proof -
  from assms(2) obtain p where p: "p \<in> set self_invoke_patterns" "re_search p U True c"
    by (auto simp: is_self_invocation_def list_ex_iff)
  with self_invoke_always_denied have "list_ex (\<lambda>p. re_search p U True c) ALWAYS_DENIED"
    by (auto simp: list_ex_iff)
  with assms(1) have "list_ex (\<lambda>p. re_search p U True (strip U c)) ALWAYS_DENIED"
    by (rule always_denied_strip)
  then show ?thesis by (simp only: check_command_critical)
qed

lemma ganesha_nbsp_self: "is_self_invocation latin1 ganesha_nbsp"
  by code_simp

theorem self_invocation_denied_witness:
  "py_ucd latin1
   \<and> AccessController (default_policy\<lparr>level := FULL_ACCESS\<rparr>) = Some full_access_controller
   \<and> is_self_invocation latin1 ganesha_nbsp
   \<and> check_command latin1 full_access_controller ganesha_nbsp
       = (False, ''critical'', ''Command matches security-critical deny pattern'')"
  using py_ucd_latin1 ganesha_nbsp_self full_access_controller_built
    self_invocation_denied [OF py_ucd_latin1 ganesha_nbsp_self]
  by blast

section \<open>Case of the letters: the patterns compiled with \<open>re.IGNORECASE\<close>\<close>





end
